theory Spec2Isabelle
  imports
    Main
    "HOL-Library.Word"
    "HOL-Library.Char_ord"
    "HOL-Library.List_Lexorder"
    "HOL-Library.Product_Lexorder"
    "HOL-Library.Multiset"
begin

section \<open>Machine integers, decimal printing and reading\<close>

text \<open>
  The C++ type \<^verbatim>\<open>int\<close> of every value the program computes with (constants, results of
  \<^verbatim>\<open>evaluate\<close>, exponents, degrees, memory cells) is a 32-bit word: \<open>+\<close>, \<open>-\<close> and \<open>*\<close> wrap
  around and \<open>sint\<close> reads the signed value. Source line numbers are only stored, compared
  and printed, never computed with, so they are kept as mathematical integers.
\<close>

type_synonym cint = "32 word"

definition digit_char :: "nat \<Rightarrow> char" where
  "digit_char d = char_of (48 + d)"

fun digits_of :: "nat \<Rightarrow> string" where
  "digits_of n = (if n < 10 then [digit_char n] else digits_of (n div 10) @ [digit_char (n mod 10)])"

declare digits_of.simps [simp del]

text \<open>\<^verbatim>\<open>std::to_string(int)\<close> and \<^verbatim>\<open>cout << int\<close>: decimal digits, a leading minus sign.\<close>

definition to_string :: "int \<Rightarrow> string" where
  "to_string i = (if i < 0 then CHR ''-'' # digits_of (nat (- i)) else digits_of (nat i))"

definition is_digit :: "char \<Rightarrow> bool" where
  "is_digit c = (48 \<le> (of_char c :: nat) \<and> (of_char c :: nat) \<le> 57)"

definition digit_val :: "char \<Rightarrow> nat" where
  "digit_val c = of_char c - 48"

definition is_space :: "char \<Rightarrow> bool" where
  "is_space c = (c = CHR '' '' \<or> (9 \<le> (of_char c :: nat) \<and> (of_char c :: nat) \<le> 13))"

text \<open>The value of the longest prefix of digits, with an accumulator, and what follows it.\<close>

fun read_digits :: "nat \<Rightarrow> string \<Rightarrow> nat" where
  "read_digits acc [] = acc"
| "read_digits acc (c # cs) = (if is_digit c then read_digits (acc * 10 + digit_val c) cs else acc)"

text \<open>
  \<^verbatim>\<open>atoi\<close>: skips white space, reads an optional sign and the digits that follow, and
  yields 0 when there is none. (A value outside the range of \<^verbatim>\<open>int\<close> is undefined in C;
  the callers below store the result in a 32-bit word.)
\<close>

definition read_signed :: "string \<Rightarrow> int" where
  "read_signed s = (case s of
      [] \<Rightarrow> 0
    | c # cs \<Rightarrow> if c = CHR ''-'' then - int (read_digits 0 cs)
               else if c = CHR ''+'' then int (read_digits 0 cs)
               else int (read_digits 0 s))"

definition atoi :: "string \<Rightarrow> int" where
  "atoi s = read_signed (dropWhile is_space s)"

text \<open>
  \<^verbatim>\<open>std::stoi\<close>: as \<^verbatim>\<open>atoi\<close>, but it throws \<^verbatim>\<open>invalid_argument\<close> when no digit can be read;
  \<open>None\<close> is that exception.
\<close>

definition has_digits :: "string \<Rightarrow> bool" where
  "has_digits s = (case s of
      [] \<Rightarrow> False
    | c # cs \<Rightarrow> if c = CHR ''-'' \<or> c = CHR ''+'' then (case cs of [] \<Rightarrow> False | d # _ \<Rightarrow> is_digit d)
               else is_digit c)"

definition stoi :: "string \<Rightarrow> int option" where
  "stoi s = (let r = dropWhile is_space s in if has_digits r then Some (read_signed r) else None)"

section \<open>Tokens and the token stream\<close>

datatype TokenType =
  END_OF_FILE | TASKS | POLY | EXECUTE | INPUTS | INPUT | OUTPUT | NUM | ID
  | LPAREN | RPAREN | COMMA | EQUAL | PLUS | MINUS | POWER | SEMICOLON | ERROR

datatype Token = Token (token_type: TokenType) (lexeme: string) (line_no: int)

text \<open>
  Modelled from the spec: the lexical analyzer (\<^verbatim>\<open>lexer.h\<close>, \<^verbatim>\<open>lexer.cc\<close>) is not in the
  repository. The parser uses it as a stream of tokens with two operations, "get next
  token" and "peek token at offset k", each giving a token with a type, a lexeme and a
  line number. The stream is the list of the tokens that are left; past its end both
  operations give the end-of-input token and the stream stays empty.
\<close>

definition eof_token :: Token where
  "eof_token = Token END_OF_FILE [] 0"

definition lexer_peek :: "Token list \<Rightarrow> nat \<Rightarrow> Token" where
  "lexer_peek ts k = (case drop (k - 1) ts of [] \<Rightarrow> eof_token | t # _ \<Rightarrow> t)"

definition lexer_GetToken :: "Token list \<Rightarrow> Token \<times> Token list" where
  "lexer_GetToken ts = (case ts of [] \<Rightarrow> (eof_token, []) | t # rest \<Rightarrow> (t, rest))"

section \<open>The expression AST\<close>

datatype Expr =
    ConstExpr cint
  | VarExpr string int
  | AddExpr Expr Expr
  | SubExpr Expr Expr
  | MulExpr Expr Expr
  | PowExpr Expr cint
  | CallExpr string "Expr list"

datatype Statement =
    InputStmt string
  | OutputStmt string
  | AssignStmt string int Expr

section \<open>Degrees\<close>

text \<open>\<^verbatim>\<open>std::max\<close> on \<^verbatim>\<open>int\<close>: the second argument when the first is smaller, signed.\<close>

definition int_max :: "cint \<Rightarrow> cint \<Rightarrow> cint" where
  "int_max a b = (if a <s b then b else a)"

fun computeDegree :: "Expr \<Rightarrow> cint" where
  "computeDegree (ConstExpr v) = 0"
| "computeDegree (VarExpr n ln) = 1"
| "computeDegree (AddExpr l r) = int_max (computeDegree l) (computeDegree r)"
| "computeDegree (SubExpr l r) = int_max (computeDegree l) (computeDegree r)"
| "computeDegree (MulExpr l r) = computeDegree l + computeDegree r"
| "computeDegree (PowExpr b e) = computeDegree b * e"
| "computeDegree (CallExpr n args) = 0"

text \<open>
  \<^verbatim>\<open>outputPolynomialDegrees\<close>. The table of first declaration lines is an association list
  with one entry per name; the loop turns each entry into the pair (line, name), the pairs
  are sorted (by line, then by name) and one line is printed for each. A name with no
  stored body is looked up with \<^verbatim>\<open>operator[]\<close>, which yields a null pointer, of degree 0.
\<close>

definition degree_of_body :: "(string \<rightharpoonup> Expr) \<Rightarrow> string \<Rightarrow> cint" where
  "degree_of_body polyExprs polyName =
     (case polyExprs polyName of None \<Rightarrow> 0 | Some body \<Rightarrow> computeDegree body)"

definition polyOrder :: "(string \<times> int) list \<Rightarrow> (int \<times> string) list" where
  "polyOrder first_line = sort (map (\<lambda>entry. (snd entry, fst entry)) first_line)"

definition outputPolynomialDegrees :: "(string \<times> int) list \<Rightarrow> (string \<rightharpoonup> Expr) \<Rightarrow> string list" where
  "outputPolynomialDegrees first_line polyExprs =
     map (\<lambda>p. snd p @ '': '' @ to_string (sint (degree_of_body polyExprs (snd p)))) (polyOrder first_line)"

section \<open>The parser\<close>

text \<open>
  Every way the program stops before it returns from \<^verbatim>\<open>main\<close>: \<^verbatim>\<open>syntax_error\<close> (prints a
  line and calls \<^verbatim>\<open>exit(1)\<close>), and the undefined reads of the execution engine.
\<close>

datatype error = SyntaxError | InputExhausted | MemoryExceeded | InvalidArgument | CallDepthExceeded

record PolyHeader =
  name :: string
  line :: int
  params :: "string list"

text \<open>
  The members of \<^verbatim>\<open>Parser\<close> and the globals the parser fills. The three tables of the
  polynomial declarations are \<^verbatim>\<open>poly_declarations\<close> (name to parameter list), \<^verbatim>\<open>polyExprs\<close>
  (name to body) and \<^verbatim>\<open>poly_decl_first_line\<close> (name to line), the last one an association
  list because \<^verbatim>\<open>outputPolynomialDegrees\<close> iterates over it.
\<close>

record parser_state =
  lexer :: "Token list"
  runTask2 :: bool
  runTask3 :: bool
  runTask4 :: bool
  runTask5 :: bool
  poly_declarations :: "string \<rightharpoonup> string list"
  polyExprs :: "string \<rightharpoonup> Expr"
  poly_decl_first_line :: "(string \<times> int) list"
  duplicate_decl_lines :: "int list"
  invalid_monomial_lines :: "int list"
  semantic_errors :: "string list"
  used_polynomials :: "string set"
  current_poly_params :: "string list"
  in_poly_decl :: bool
  execStatements :: "Statement list"
  execInputs :: "cint list"

definition peek :: "nat \<Rightarrow> parser_state \<Rightarrow> Token" where
  "peek k s = lexer_peek (lexer s) k"

definition expect :: "TokenType \<Rightarrow> parser_state \<Rightarrow> error + (Token \<times> parser_state)" where
  "expect expected_type s =
     (case lexer_GetToken (lexer s) of (t, rest) \<Rightarrow>
        if token_type t \<noteq> expected_type then Inl SyntaxError
        else Inr (t, s\<lparr>lexer := rest\<rparr>))"

subsection \<open>The TASKS section\<close>

text \<open>
  \<^verbatim>\<open>parse_num_list\<close> holds the task number in an \<^verbatim>\<open>int\<close>, \<^verbatim>\<open>int task = atoi(...)\<close>, and
  compares it with 2, 3, 4 and 5.
\<close>

definition set_task_flags :: "cint \<Rightarrow> parser_state \<Rightarrow> parser_state" where
  "set_task_flags task s =
     (let s2 = (if task = 2 then s\<lparr>runTask2 := True\<rparr> else s);
          s3 = (if task = 3 then s2\<lparr>runTask3 := True\<rparr> else s2);
          s4 = (if task = 4 then s3\<lparr>runTask4 := True\<rparr> else s3)
      in (if task = 5 then s4\<lparr>runTask5 := True\<rparr> else s4))"

function parse_num_list :: "parser_state \<Rightarrow> error + parser_state" where
  "parse_num_list s =
     (case expect NUM s of
        Inl e \<Rightarrow> Inl e
      | Inr (t, s1) \<Rightarrow>
          (let task = word_of_int (atoi (lexeme t));
               s2 = set_task_flags task s1 in
           if token_type (peek 1 s2) = NUM then parse_num_list s2 else Inr s2))"
  by pat_completeness auto

lemma expect_consumes:
  "expect ty s = Inr (t, s') \<Longrightarrow> ty \<noteq> END_OF_FILE \<Longrightarrow> lexer s = t # lexer s'"
  by (auto simp: expect_def lexer_GetToken_def eof_token_def split: list.splits if_splits)

lemma expect_length:
  "expect ty s = Inr (t, s') \<Longrightarrow> ty \<noteq> END_OF_FILE \<Longrightarrow> length (lexer s') < length (lexer s)"
  by (drule (1) expect_consumes) simp

lemma lexer_set_task_flags [simp]: "lexer (set_task_flags task s) = lexer s"
  by (simp add: set_task_flags_def Let_def)

termination parse_num_list
proof (relation "measure (\<lambda>s. length (lexer s))", goal_cases)
  case 1
  show ?case by simp
next
  case (2 s x xa y xb)
  then show ?case using expect_length [of NUM s xa y] by auto
qed

declare parse_num_list.simps [simp del]

definition parse_tasks_section :: "parser_state \<Rightarrow> error + parser_state" where
  "parse_tasks_section s =
     (case expect TASKS s of Inl e \<Rightarrow> Inl e | Inr (_, s1) \<Rightarrow> parse_num_list s1)"

subsection \<open>Polynomial declarations\<close>

text \<open>
  The tail shared by \<^verbatim>\<open>parse_poly_factor\<close> and \<^verbatim>\<open>parse_factor\<close>: an optional \<^verbatim>\<open>^ NUM\<close>, and
  the refusal of a numeral right after a parenthesised factor inside a declaration.
\<close>

definition parse_power_suffix :: "Expr \<Rightarrow> bool \<Rightarrow> parser_state \<Rightarrow> error + (Expr \<times> parser_state)" where
  "parse_power_suffix expr wasParen s =
     (let t = peek 1 s in
      if token_type t = POWER then
        (case expect POWER s of
           Inl e \<Rightarrow> Inl e
         | Inr (_, s1) \<Rightarrow>
             (case expect NUM s1 of
                Inl e \<Rightarrow> Inl e
              | Inr (num, s2) \<Rightarrow> Inr (PowExpr expr (word_of_int (atoi (lexeme num))), s2)))
      else if in_poly_decl s \<and> wasParen \<and> token_type t = NUM then Inl SyntaxError
      else Inr (expr, s))"

text \<open>
  The three mutually recursive procedures of a polynomial body. The two \<^verbatim>\<open>while\<close> loops are
  \<open>parse_poly_body_plus\<close> (the loop over \<^verbatim>\<open>+ term\<close> of \<^verbatim>\<open>parse_poly_body_expr\<close>) and
  \<open>parse_poly_term_mult\<close> (the loop over the implicit products of \<^verbatim>\<open>parse_poly_term\<close>), each
  taking the tree built so far.
\<close>

function parse_poly_body_expr :: "parser_state \<Rightarrow> error + (Expr \<times> parser_state)"
  and parse_poly_body_plus :: "Expr \<Rightarrow> parser_state \<Rightarrow> error + (Expr \<times> parser_state)"
  and parse_poly_term :: "parser_state \<Rightarrow> error + (Expr \<times> parser_state)"
  and parse_poly_term_mult :: "Expr \<Rightarrow> parser_state \<Rightarrow> error + (Expr \<times> parser_state)"
  and parse_poly_factor :: "parser_state \<Rightarrow> error + (Expr \<times> parser_state)"
where
  "parse_poly_body_expr s =
     (case parse_poly_term s of
        Inl e \<Rightarrow> Inl e
      | Inr (left, s1) \<Rightarrow>
          (case parse_poly_body_plus left s1 of
             Inl e \<Rightarrow> Inl e
           | Inr (left', s2) \<Rightarrow>
               if token_type (peek 1 s2) = MINUS then
                 (case expect MINUS s2 of
                    Inl e \<Rightarrow> Inl e
                  | Inr (_, s3) \<Rightarrow>
                      (case parse_poly_body_expr s3 of
                         Inl e \<Rightarrow> Inl e
                       | Inr (right, s4) \<Rightarrow> Inr (SubExpr left' right, s4)))
               else Inr (left', s2)))"
| "parse_poly_body_plus left s =
     (if token_type (peek 1 s) = PLUS then
        (case expect PLUS s of
           Inl e \<Rightarrow> Inl e
         | Inr (_, s1) \<Rightarrow>
             (case parse_poly_term s1 of
                Inl e \<Rightarrow> Inl e
              | Inr (right, s2) \<Rightarrow> parse_poly_body_plus (AddExpr left right) s2))
      else Inr (left, s))"
| "parse_poly_term s =
     (let t = peek 1 s in
      if token_type t = NUM then
        (case expect NUM s of
           Inl e \<Rightarrow> Inl e
         | Inr (t', s1) \<Rightarrow> parse_poly_term_mult (ConstExpr (word_of_int (atoi (lexeme t')))) s1)
      else if token_type t = ID \<or> token_type t = LPAREN then
        (case parse_poly_factor s of
           Inl e \<Rightarrow> Inl e
         | Inr (left, s1) \<Rightarrow> parse_poly_term_mult left s1)
      else Inl SyntaxError)"
| "parse_poly_term_mult left s =
     (if token_type (peek 1 s) = ID \<or> token_type (peek 1 s) = LPAREN then
        (case parse_poly_factor s of
           Inl e \<Rightarrow> Inl e
         | Inr (right, s1) \<Rightarrow> parse_poly_term_mult (MulExpr left right) s1)
      else Inr (left, s))"
| "parse_poly_factor s =
     (let t = peek 1 s in
      if token_type t = NUM then
        (case expect NUM s of
           Inl e \<Rightarrow> Inl e
         | Inr (t', s1) \<Rightarrow>
             parse_power_suffix (ConstExpr (word_of_int (atoi (lexeme t')))) False s1)
      else if token_type t = ID then
        (case expect ID s of
           Inl e \<Rightarrow> Inl e
         | Inr (idToken, s1) \<Rightarrow>
             parse_power_suffix (VarExpr (lexeme idToken) (line_no idToken)) False
               (if lexeme idToken \<notin> set (current_poly_params s1)
                then s1\<lparr>invalid_monomial_lines := invalid_monomial_lines s1 @ [line_no idToken]\<rparr>
                else s1))
      else if token_type t = LPAREN then
        (case expect LPAREN s of
           Inl e \<Rightarrow> Inl e
         | Inr (_, s1) \<Rightarrow>
             (case parse_poly_body_expr s1 of
                Inl e \<Rightarrow> Inl e
              | Inr (expr, s2) \<Rightarrow>
                  (case expect RPAREN s2 of
                     Inl e \<Rightarrow> Inl e
                   | Inr (_, s3) \<Rightarrow> parse_power_suffix expr True s3)))
      else Inl SyntaxError)"
  by pat_completeness auto

text \<open>
  What a successful run of a body parser does to the state: it takes a prefix \<open>c\<close> off the
  token stream and appends, for every identifier of \<open>c\<close> that is not a parameter of the
  declaration, its line to \<^verbatim>\<open>invalid_monomial_lines\<close>; nothing else changes.
\<close>

definition bad_ids :: "string list \<Rightarrow> Token list \<Rightarrow> int list" where
  "bad_ids ps c = map line_no (filter (\<lambda>t. token_type t = ID \<and> lexeme t \<notin> set ps) c)"

definition poly_step :: "parser_state \<Rightarrow> parser_state \<Rightarrow> Token list \<Rightarrow> bool" where
  "poly_step s s' c \<longleftrightarrow>
     lexer s = c @ lexer s' \<and>
     s' = s\<lparr>lexer := lexer s',
            invalid_monomial_lines := invalid_monomial_lines s @ bad_ids (current_poly_params s) c\<rparr>"

lemma poly_step_refl: "poly_step s s []"
  by (simp add: poly_step_def bad_ids_def)

lemma poly_step_trans:
  assumes "poly_step s s1 c1" and "poly_step s1 s2 c2"
  shows "poly_step s s2 (c1 @ c2)"
  using assms
  by (cases s; cases s1; cases s2) (simp add: poly_step_def bad_ids_def)

lemma poly_step_length: "poly_step s s' c \<Longrightarrow> length (lexer s) = length c + length (lexer s')"
  by (simp add: poly_step_def)

lemma expect_poly_step:
  "expect ty s = Inr (t, s') \<Longrightarrow> ty \<noteq> END_OF_FILE \<Longrightarrow> ty \<noteq> ID \<Longrightarrow> poly_step s s' [t]"
  by (auto simp: expect_def lexer_GetToken_def eof_token_def poly_step_def bad_ids_def
      split: list.splits if_splits)

lemma expect_ID_poly_step:
  "expect ID s = Inr (t, s1) \<Longrightarrow>
   poly_step s (if lexeme t \<notin> set (current_poly_params s1)
                then s1\<lparr>invalid_monomial_lines := invalid_monomial_lines s1 @ [line_no t]\<rparr>
                else s1) [t]"
  by (auto simp: expect_def lexer_GetToken_def eof_token_def poly_step_def bad_ids_def
      split: list.splits if_splits)

lemma parse_power_suffix_step:
  assumes "parse_power_suffix expr w s = Inr (e, s')"
  shows "\<exists>c. poly_step s s' c"
proof (cases "token_type (peek 1 s) = POWER")
  case True
  with assms obtain t1 s1 t2 where
    a: "expect POWER s = Inr (t1, s1)" and b: "expect NUM s1 = Inr (t2, s')"
    by (auto simp: parse_power_suffix_def Let_def split: sum.splits)
  have "poly_step s s' ([t1] @ [t2])"
    by (rule poly_step_trans [OF expect_poly_step [OF a] expect_poly_step [OF b]]) simp_all
  then show ?thesis ..
next
  case False
  with assms have "s' = s"
    by (auto simp: parse_power_suffix_def Let_def split: if_splits)
  then show ?thesis using poly_step_refl by blast
qed

abbreviation poly_dom where
  "poly_dom \<equiv> parse_poly_body_expr_parse_poly_body_plus_parse_poly_term_parse_poly_term_mult_parse_poly_factor_dom"

lemma poly_parsers_step_dom:
  "poly_dom (Inl (Inl s)) \<Longrightarrow> parse_poly_body_expr s = Inr (e, s') \<Longrightarrow> \<exists>c. c \<noteq> [] \<and> poly_step s s' c"
  "poly_dom (Inl (Inr (left, s))) \<Longrightarrow> parse_poly_body_plus left s = Inr (e, s') \<Longrightarrow> \<exists>c. poly_step s s' c"
  "poly_dom (Inr (Inl s)) \<Longrightarrow> parse_poly_term s = Inr (e, s') \<Longrightarrow> \<exists>c. c \<noteq> [] \<and> poly_step s s' c"
  "poly_dom (Inr (Inr (Inl (left, s)))) \<Longrightarrow> parse_poly_term_mult left s = Inr (e, s') \<Longrightarrow> \<exists>c. poly_step s s' c"
  "poly_dom (Inr (Inr (Inr s))) \<Longrightarrow> parse_poly_factor s = Inr (e, s') \<Longrightarrow> \<exists>c. c \<noteq> [] \<and> poly_step s s' c"
proof (induct arbitrary: e s' and e s' and e s' and e s' and e s'
    rule: parse_poly_body_expr_parse_poly_body_plus_parse_poly_term_parse_poly_term_mult_parse_poly_factor.pinduct)
  case (1 s)
  from 1(5) obtain l1 s1 l2 s2 where
    t: "parse_poly_term s = Inr (l1, s1)" and p: "parse_poly_body_plus l1 s1 = Inr (l2, s2)"
    by (auto simp: parse_poly_body_expr.psimps [OF 1(1)] split: sum.splits)
  obtain c1 where a: "c1 \<noteq> []" "poly_step s s1 c1" using 1(2) [OF t] by blast
  obtain c2 where b: "poly_step s1 s2 c2" using 1(3) [OF t refl p] by blast
  show ?case
  proof (cases "token_type (peek 1 s2) = MINUS")
    case True
    with 1(5) t p obtain tm s3 r where
      m: "expect MINUS s2 = Inr (tm, s3)" and r: "parse_poly_body_expr s3 = Inr (r, s')"
      by (auto simp: parse_poly_body_expr.psimps [OF 1(1)] split: sum.splits)
    obtain c3 where c: "poly_step s3 s' c3"
      using 1(4) [OF t refl p refl True m refl r] by blast
    have "poly_step s2 s3 [tm]" using expect_poly_step [OF m] by simp
    then have "poly_step s s' (c1 @ c2 @ [tm] @ c3)"
      using a(2) b c by (blast intro: poly_step_trans)
    then show ?thesis using a(1) by blast
  next
    case False
    with 1(5) t p have "s' = s2"
      by (auto simp: parse_poly_body_expr.psimps [OF 1(1)] split: sum.splits)
    then have "poly_step s s' (c1 @ c2)" using a(2) b by (blast intro: poly_step_trans)
    then show ?thesis using a(1) by blast
  qed
next
  case (2 left s)
  show ?case
  proof (cases "token_type (peek 1 s) = PLUS")
    case True
    with 2(4) obtain tp s1 r s2 where
      m: "expect PLUS s = Inr (tp, s1)" and t: "parse_poly_term s1 = Inr (r, s2)"
      and l: "parse_poly_body_plus (AddExpr left r) s2 = Inr (e, s')"
      by (auto simp: parse_poly_body_plus.psimps [OF 2(1)] split: sum.splits)
    have "poly_step s s1 [tp]" using expect_poly_step [OF m] by simp
    moreover obtain c1 where "poly_step s1 s2 c1" using 2(2) [OF True m refl t] by blast
    moreover obtain c2 where "poly_step s2 s' c2" using 2(3) [OF True m refl t refl l] by blast
    ultimately have "poly_step s s' ([tp] @ c1 @ c2)" by (blast intro: poly_step_trans)
    then show ?thesis ..
  next
    case False
    with 2(4) have "s' = s" by (simp add: parse_poly_body_plus.psimps [OF 2(1)])
    then show ?thesis using poly_step_refl by blast
  qed
next
  case (3 s)
  consider (num) "token_type (peek 1 s) = NUM"
    | (fac) "token_type (peek 1 s) \<noteq> NUM" "token_type (peek 1 s) = ID \<or> token_type (peek 1 s) = LPAREN"
    | (err) "token_type (peek 1 s) \<noteq> NUM" "\<not> (token_type (peek 1 s) = ID \<or> token_type (peek 1 s) = LPAREN)"
    by blast
  then show ?case
  proof cases
    case num
    with 3(5) obtain tn s1 where
      m: "expect NUM s = Inr (tn, s1)"
      and l: "parse_poly_term_mult (ConstExpr (word_of_int (atoi (lexeme tn)))) s1 = Inr (e, s')"
      by (auto simp: parse_poly_term.psimps [OF 3(1)] Let_def split: sum.splits)
    have "poly_step s s1 [tn]" using expect_poly_step [OF m] by simp
    moreover obtain c1 where "poly_step s1 s' c1" using 3(2) [OF refl num m refl l] by blast
    ultimately have "poly_step s s' ([tn] @ c1)" by (blast intro: poly_step_trans)
    then show ?thesis by blast
  next
    case fac
    with 3(5) obtain l1 s1 where
      f: "parse_poly_factor s = Inr (l1, s1)" and l: "parse_poly_term_mult l1 s1 = Inr (e, s')"
      by (auto simp: parse_poly_term.psimps [OF 3(1)] Let_def split: sum.splits)
    obtain c1 where a: "c1 \<noteq> []" "poly_step s s1 c1" using 3(3) [OF refl fac f] by blast
    obtain c2 where "poly_step s1 s' c2" using 3(4) [OF refl fac f refl l] by blast
    with a(2) have "poly_step s s' (c1 @ c2)" by (blast intro: poly_step_trans)
    then show ?thesis using a(1) by blast
  next
    case err
    with 3(5) show ?thesis by (auto simp: parse_poly_term.psimps [OF 3(1)] Let_def)
  qed
next
  case (4 left s)
  show ?case
  proof (cases "token_type (peek 1 s) = ID \<or> token_type (peek 1 s) = LPAREN")
    case True
    with 4(4) obtain r s1 where
      f: "parse_poly_factor s = Inr (r, s1)" and l: "parse_poly_term_mult (MulExpr left r) s1 = Inr (e, s')"
      by (auto simp: parse_poly_term_mult.psimps [OF 4(1)] split: sum.splits)
    obtain c1 where "poly_step s s1 c1" using 4(2) [OF True f] by blast
    moreover obtain c2 where "poly_step s1 s' c2" using 4(3) [OF True f refl l] by blast
    ultimately have "poly_step s s' (c1 @ c2)" by (blast intro: poly_step_trans)
    then show ?thesis ..
  next
    case False
    with 4(4) have "s' = s" by (auto simp: parse_poly_term_mult.psimps [OF 4(1)])
    then show ?thesis using poly_step_refl by blast
  qed
next
  case (5 s)
  consider (num) "token_type (peek 1 s) = NUM"
    | (ident) "token_type (peek 1 s) \<noteq> NUM" "token_type (peek 1 s) = ID"
    | (paren) "token_type (peek 1 s) \<noteq> NUM" "token_type (peek 1 s) \<noteq> ID" "token_type (peek 1 s) = LPAREN"
    | (err) "token_type (peek 1 s) \<noteq> NUM" "token_type (peek 1 s) \<noteq> ID" "token_type (peek 1 s) \<noteq> LPAREN"
    by blast
  then show ?case
  proof cases
    case num
    with 5(3) obtain tn s1 where
      m: "expect NUM s = Inr (tn, s1)"
      and p: "parse_power_suffix (ConstExpr (word_of_int (atoi (lexeme tn)))) False s1 = Inr (e, s')"
      by (auto simp: parse_poly_factor.psimps [OF 5(1)] Let_def split: sum.splits)
    have "poly_step s s1 [tn]" using expect_poly_step [OF m] by simp
    moreover obtain c1 where "poly_step s1 s' c1" using parse_power_suffix_step [OF p] by blast
    ultimately have "poly_step s s' ([tn] @ c1)" by (blast intro: poly_step_trans)
    then show ?thesis by blast
  next
    case ident
    with 5(3) obtain tn s1 where
      m: "expect ID s = Inr (tn, s1)"
      and p: "parse_power_suffix (VarExpr (lexeme tn) (line_no tn)) False
             (if lexeme tn \<notin> set (current_poly_params s1)
              then s1\<lparr>invalid_monomial_lines := invalid_monomial_lines s1 @ [line_no tn]\<rparr>
              else s1) = Inr (e, s')"
      by (auto simp: parse_poly_factor.psimps [OF 5(1)] Let_def split: sum.splits)
    obtain c1 where "poly_step (if lexeme tn \<notin> set (current_poly_params s1)
              then s1\<lparr>invalid_monomial_lines := invalid_monomial_lines s1 @ [line_no tn]\<rparr>
              else s1) s' c1" using parse_power_suffix_step [OF p] by blast
    with expect_ID_poly_step [OF m] have "poly_step s s' ([tn] @ c1)"
      by (blast intro: poly_step_trans)
    then show ?thesis by blast
  next
    case paren
    with 5(3) obtain tl s1 b s2 tr s3 where
      m: "expect LPAREN s = Inr (tl, s1)" and b: "parse_poly_body_expr s1 = Inr (b, s2)"
      and r: "expect RPAREN s2 = Inr (tr, s3)" and p: "parse_power_suffix b True s3 = Inr (e, s')"
      by (auto simp: parse_poly_factor.psimps [OF 5(1)] Let_def split: sum.splits)
    have "poly_step s s1 [tl]" using expect_poly_step [OF m] by simp
    moreover obtain c1 where "poly_step s1 s2 c1" using 5(2) [OF refl paren m refl b] by blast
    moreover have "poly_step s2 s3 [tr]" using expect_poly_step [OF r] by simp
    moreover obtain c2 where "poly_step s3 s' c2" using parse_power_suffix_step [OF p] by blast
    ultimately have "poly_step s s' ([tl] @ c1 @ [tr] @ c2)" by (blast intro: poly_step_trans)
    then show ?thesis by blast
  next
    case err
    with 5(3) show ?thesis by (auto simp: parse_poly_factor.psimps [OF 5(1)] Let_def)
  qed
qed

lemma poly_step_less: "c \<noteq> [] \<and> poly_step s s' c \<Longrightarrow> length (lexer s') < length (lexer s)"
  by (cases c) (auto dest: poly_step_length)

lemma poly_step_le: "poly_step s s' c \<Longrightarrow> length (lexer s') \<le> length (lexer s)"
  by (auto dest: poly_step_length)

lemma poly_parsers_consume:
  "poly_dom (Inl (Inl s)) \<Longrightarrow> parse_poly_body_expr s = Inr (e, s') \<Longrightarrow> length (lexer s') < length (lexer s)"
  "poly_dom (Inl (Inr (left, s))) \<Longrightarrow> parse_poly_body_plus left s = Inr (e, s') \<Longrightarrow> length (lexer s') \<le> length (lexer s)"
  "poly_dom (Inr (Inl s)) \<Longrightarrow> parse_poly_term s = Inr (e, s') \<Longrightarrow> length (lexer s') < length (lexer s)"
  "poly_dom (Inr (Inr (Inl (left, s)))) \<Longrightarrow> parse_poly_term_mult left s = Inr (e, s') \<Longrightarrow> length (lexer s') \<le> length (lexer s)"
  "poly_dom (Inr (Inr (Inr s))) \<Longrightarrow> parse_poly_factor s = Inr (e, s') \<Longrightarrow> length (lexer s') < length (lexer s)"
  subgoal using poly_parsers_step_dom(1) poly_step_less by blast
  subgoal using poly_parsers_step_dom(2) poly_step_le by blast
  subgoal using poly_parsers_step_dom(3) poly_step_less by blast
  subgoal using poly_parsers_step_dom(4) poly_step_le by blast
  subgoal using poly_parsers_step_dom(5) poly_step_less by blast
  done

lemma poly_parsers_total: "All poly_dom"
proof (relation "measures
     [\<lambda>x. case x of
        Inl (Inl s) \<Rightarrow> length (lexer s)
      | Inl (Inr (l, s)) \<Rightarrow> length (lexer s)
      | Inr (Inl s) \<Rightarrow> length (lexer s)
      | Inr (Inr (Inl (l, s))) \<Rightarrow> length (lexer s)
      | Inr (Inr (Inr s)) \<Rightarrow> length (lexer s),
      \<lambda>x. case x of
        Inl (Inl s) \<Rightarrow> 3
      | Inl (Inr (l, s)) \<Rightarrow> 3
      | Inr (Inl s) \<Rightarrow> 2
      | Inr (Inr (Inl (l, s))) \<Rightarrow> 2
      | Inr (Inr (Inr s)) \<Rightarrow> 1]", goal_cases)
  case 1
  then show ?case by auto
next
  case (2 s)
  then show ?case by auto
next
  case (3 s x xa y)
  then show ?case using poly_parsers_consume(3) [of s xa y] by auto
next
  case (4 s x xa y xb xc ya xd xe yb)
  then show ?case
    using poly_parsers_consume(3) [of s xa y] poly_parsers_consume(2) [of xa y xc ya]
      expect_length [of MINUS ya xe yb] by auto
next
  case (5 left s x xa y)
  then show ?case using expect_length [of PLUS s xa y] by auto
next
  case (6 left s x xa y xb xc ya)
  then show ?case
    using expect_length [of PLUS s xa y] poly_parsers_consume(3) [of y xc ya] by auto
next
  case (7 s x xa xb y)
  then show ?case using expect_length [of NUM s xb y] by auto
next
  case (8 s x)
  then show ?case by auto
next
  case (9 s x xa xb y)
  then show ?case using poly_parsers_consume(5) [of s xb y] by auto
next
  case (10 left s)
  then show ?case by auto
next
  case (11 left s x xa y)
  then show ?case using poly_parsers_consume(5) [of s xa y] by auto
next
  case (12 s x xa xb y)
  then show ?case using expect_length [of LPAREN s xb y] by auto
qed

termination parse_poly_body_expr
  by (rule poly_parsers_total)

declare parse_poly_body_expr.simps [simp del] parse_poly_body_plus.simps [simp del]
  parse_poly_term.simps [simp del] parse_poly_term_mult.simps [simp del]
  parse_poly_factor.simps [simp del]

lemma poly_parsers_step:
  "parse_poly_body_expr s = Inr (e, s') \<Longrightarrow> \<exists>c. c \<noteq> [] \<and> poly_step s s' c"
  "parse_poly_body_plus left s = Inr (e, s') \<Longrightarrow> \<exists>c. poly_step s s' c"
  "parse_poly_term s = Inr (e, s') \<Longrightarrow> \<exists>c. c \<noteq> [] \<and> poly_step s s' c"
  "parse_poly_term_mult left s = Inr (e, s') \<Longrightarrow> \<exists>c. poly_step s s' c"
  "parse_poly_factor s = Inr (e, s') \<Longrightarrow> \<exists>c. c \<noteq> [] \<and> poly_step s s' c"
proof -
  have d: "\<And>x. poly_dom x" using poly_parsers_total by simp
  show "parse_poly_body_expr s = Inr (e, s') \<Longrightarrow> \<exists>c. c \<noteq> [] \<and> poly_step s s' c"
    by (rule poly_parsers_step_dom(1) [OF d])
  show "parse_poly_body_plus left s = Inr (e, s') \<Longrightarrow> \<exists>c. poly_step s s' c"
    by (rule poly_parsers_step_dom(2) [OF d])
  show "parse_poly_term s = Inr (e, s') \<Longrightarrow> \<exists>c. c \<noteq> [] \<and> poly_step s s' c"
    by (rule poly_parsers_step_dom(3) [OF d])
  show "parse_poly_term_mult left s = Inr (e, s') \<Longrightarrow> \<exists>c. poly_step s s' c"
    by (rule poly_parsers_step_dom(4) [OF d])
  show "parse_poly_factor s = Inr (e, s') \<Longrightarrow> \<exists>c. c \<noteq> [] \<and> poly_step s s' c"
    by (rule poly_parsers_step_dom(5) [OF d])
qed

lemma bind_Inr:
  "(case x of Inl e \<Rightarrow> Inl e | Inr v \<Rightarrow> f v) = Inr r \<longleftrightarrow> (\<exists>v. x = Inr v \<and> f v = Inr r)"
  by (cases x) auto

text \<open>A parser step that only takes the prefix \<open>c\<close> off the token stream.\<close>

definition lexer_step :: "parser_state \<Rightarrow> parser_state \<Rightarrow> Token list \<Rightarrow> bool" where
  "lexer_step s s' c \<longleftrightarrow> lexer s = c @ lexer s' \<and> s' = s\<lparr>lexer := lexer s'\<rparr>"

lemma lexer_step_refl: "lexer_step s s []"
  by (simp add: lexer_step_def)

lemma lexer_step_trans: "lexer_step s s1 c1 \<Longrightarrow> lexer_step s1 s2 c2 \<Longrightarrow> lexer_step s s2 (c1 @ c2)"
  by (cases s; cases s1; cases s2) (simp add: lexer_step_def)

lemma expect_lexer_step:
  "expect ty s = Inr (t, s') \<Longrightarrow> ty \<noteq> END_OF_FILE \<Longrightarrow> lexer_step s s' [t] \<and> token_type t = ty"
  by (auto simp: expect_def lexer_GetToken_def eof_token_def lexer_step_def
      split: list.splits if_splits)

lemma lexer_step_length: "lexer_step s s' c \<Longrightarrow> length (lexer s) = length c + length (lexer s')"
  by (simp add: lexer_step_def)

function parse_id_list_more :: "string list \<Rightarrow> parser_state \<Rightarrow> error + (string list \<times> parser_state)" where
  "parse_id_list_more ids s =
     (if token_type (peek 1 s) = COMMA then
        (case expect COMMA s of
           Inl e \<Rightarrow> Inl e
         | Inr (_, s1) \<Rightarrow>
             (case expect ID s1 of
                Inl e \<Rightarrow> Inl e
              | Inr (t, s2) \<Rightarrow> parse_id_list_more (ids @ [lexeme t]) s2))
      else Inr (ids, s))"
  by pat_completeness auto
termination
proof (relation "measure (\<lambda>(ids, s). length (lexer s))", goal_cases)
  case 1
  show ?case by simp
next
  case (2 ids s x xa y xb xc ya)
  then show ?case
    using expect_length [of COMMA s xa y] expect_length [of ID y xc ya] by auto
qed

declare parse_id_list_more.simps [simp del]

definition parse_id_list :: "parser_state \<Rightarrow> error + (string list \<times> parser_state)" where
  "parse_id_list s =
     (case expect ID s of
        Inl e \<Rightarrow> Inl e
      | Inr (t, s1) \<Rightarrow> parse_id_list_more [lexeme t] s1)"

definition parse_poly_header :: "parser_state \<Rightarrow> error + (PolyHeader \<times> parser_state)" where
  "parse_poly_header s =
     (case expect ID s of
        Inl e \<Rightarrow> Inl e
      | Inr (t, s1) \<Rightarrow>
          (case (if token_type (peek 1 s1) = LPAREN then
                   (case expect LPAREN s1 of
                      Inl e \<Rightarrow> Inl e
                    | Inr (_, s2) \<Rightarrow>
                        (case parse_id_list s2 of
                           Inl e \<Rightarrow> Inl e
                         | Inr (ids, s3) \<Rightarrow>
                             (case expect RPAREN s3 of
                                Inl e \<Rightarrow> Inl e
                              | Inr (_, s4) \<Rightarrow> Inr (ids, s4))))
                 else Inr ([''x''], s1)) of
             Inl e \<Rightarrow> Inl e
           | Inr (ps, s5) \<Rightarrow>
               (let header = \<lparr>name = lexeme t, line = line_no t, params = ps\<rparr> in
                Inr (header,
                     s5\<lparr>poly_declarations := (poly_declarations s5)(name header \<mapsto> params header)\<rparr>))))"

definition parse_poly_decl :: "parser_state \<Rightarrow> error + parser_state" where
  "parse_poly_decl s =
     (case parse_poly_header s of
        Inl e \<Rightarrow> Inl e
      | Inr (header, s1) \<Rightarrow>
          (case expect EQUAL s1 of
             Inl e \<Rightarrow> Inl e
           | Inr (_, s2) \<Rightarrow>
               (case parse_poly_body_expr (s2\<lparr>current_poly_params := params header, in_poly_decl := True\<rparr>) of
                  Inl e \<Rightarrow> Inl e
                | Inr (body, s3) \<Rightarrow>
                    (case expect SEMICOLON (s3\<lparr>in_poly_decl := False\<rparr>) of
                       Inl e \<Rightarrow> Inl e
                     | Inr (_, s4) \<Rightarrow>
                         if map_of (poly_decl_first_line s4) (name header) \<noteq> None then
                           Inr (s4\<lparr>duplicate_decl_lines := duplicate_decl_lines s4 @ [line header]\<rparr>)
                         else
                           Inr (s4\<lparr>poly_decl_first_line := poly_decl_first_line s4 @ [(name header, line header)],
                                   polyExprs := (polyExprs s4)(name header \<mapsto> body)\<rparr>)))))"

lemma parse_id_list_more_step:
  "parse_id_list_more ids s = Inr (ids', s') \<Longrightarrow> \<exists>c. lexer_step s s' c"
proof (induction ids s arbitrary: ids' s' rule: parse_id_list_more.induct)
  case (1 ids s)
  show ?case
  proof (cases "token_type (peek 1 s) = COMMA")
    case True
    with 1(2) obtain t1 s1 t2 s2 where
      a: "expect COMMA s = Inr (t1, s1)" and b: "expect ID s1 = Inr (t2, s2)"
      and c: "parse_id_list_more (ids @ [lexeme t2]) s2 = Inr (ids', s')"
      by (auto simp: parse_id_list_more.simps [of ids s] split: sum.splits)
    obtain c2 where "lexer_step s2 s' c2" using 1(1) [OF True a refl b refl c] by blast
    with expect_lexer_step [OF a] expect_lexer_step [OF b]
    have "lexer_step s s' ([t1] @ [t2] @ c2)" by (blast intro: lexer_step_trans)
    then show ?thesis ..
  next
    case False
    with 1(2) have "s' = s" by (simp add: parse_id_list_more.simps [of ids s])
    then show ?thesis using lexer_step_refl by blast
  qed
qed

lemma parse_id_list_step:
  assumes "parse_id_list s = Inr (ids, s')"
  shows "\<exists>c. c \<noteq> [] \<and> lexer_step s s' c"
proof -
  from assms obtain t s1 where
    a: "expect ID s = Inr (t, s1)" and b: "parse_id_list_more [lexeme t] s1 = Inr (ids, s')"
    by (auto simp: parse_id_list_def split: sum.splits)
  obtain c where "lexer_step s1 s' c" using parse_id_list_more_step [OF b] by blast
  with expect_lexer_step [OF a] have "lexer_step s s' ([t] @ c)" by (blast intro: lexer_step_trans)
  then show ?thesis by blast
qed

text \<open>The header: the tokens it takes, and the one table it writes.\<close>

lemma parse_poly_header_step:
  assumes "parse_poly_header s = Inr (h, s')"
  shows "\<exists>c. c \<noteq> [] \<and> lexer s = c @ lexer s' \<and>
     s' = s\<lparr>lexer := lexer s', poly_declarations := (poly_declarations s)(name h \<mapsto> params h)\<rparr>"
proof -
  from assms obtain t s1 ps s5 where
    a: "expect ID s = Inr (t, s1)"
    and b: "(if token_type (peek 1 s1) = LPAREN then
                   (case expect LPAREN s1 of
                      Inl e \<Rightarrow> Inl e
                    | Inr (_, s2) \<Rightarrow>
                        (case parse_id_list s2 of
                           Inl e \<Rightarrow> Inl e
                         | Inr (ids, s3) \<Rightarrow>
                             (case expect RPAREN s3 of
                                Inl e \<Rightarrow> Inl e
                              | Inr (_, s4) \<Rightarrow> Inr (ids, s4))))
                 else Inr ([''x''], s1)) = Inr (ps, s5)"
    and h: "h = \<lparr>name = lexeme t, line = line_no t, params = ps\<rparr>"
    and s': "s' = s5\<lparr>poly_declarations := (poly_declarations s5)(lexeme t \<mapsto> ps)\<rparr>"
    by (auto simp: parse_poly_header_def Let_def split: sum.splits)
  have "\<exists>c. lexer_step s1 s5 c"
  proof (cases "token_type (peek 1 s1) = LPAREN")
    case True
    with b obtain t2 s2 s3 t4 where
      c: "expect LPAREN s1 = Inr (t2, s2)" and d: "parse_id_list s2 = Inr (ps, s3)"
      and e: "expect RPAREN s3 = Inr (t4, s5)"
      by (auto split: sum.splits)
    obtain c3 where "lexer_step s2 s3 c3" using parse_id_list_step [OF d] by blast
    with expect_lexer_step [OF c] expect_lexer_step [OF e]
    have "lexer_step s1 s5 ([t2] @ c3 @ [t4])" by (blast intro: lexer_step_trans)
    then show ?thesis ..
  next
    case False
    with b have "s5 = s1" by simp
    then show ?thesis using lexer_step_refl by blast
  qed
  then obtain c where "lexer_step s1 s5 c" ..
  with expect_lexer_step [OF a] have l: "lexer_step s s5 ([t] @ c)" by (blast intro: lexer_step_trans)
  have "lexer s = ([t] @ c) @ lexer s'" using l s' by (simp add: lexer_step_def)
  moreover have "s' = s\<lparr>lexer := lexer s', poly_declarations := (poly_declarations s)(name h \<mapsto> params h)\<rparr>"
    using l s' h by (cases s; cases s5) (simp add: lexer_step_def)
  ultimately show ?thesis by blast
qed

lemma parse_poly_decl_length:
  assumes "parse_poly_decl s = Inr s'"
  shows "length (lexer s') < length (lexer s)"
proof -
  from assms obtain h s1 t2 s2 body s3 t4 s4 where
    a: "parse_poly_header s = Inr (h, s1)" and b: "expect EQUAL s1 = Inr (t2, s2)"
    and c: "parse_poly_body_expr (s2\<lparr>current_poly_params := params h, in_poly_decl := True\<rparr>) = Inr (body, s3)"
    and d: "expect SEMICOLON (s3\<lparr>in_poly_decl := False\<rparr>) = Inr (t4, s4)"
    and e: "lexer s' = lexer s4"
    by (auto simp: parse_poly_decl_def bind_Inr split: if_splits)
  from parse_poly_header_step [OF a] obtain c where "c \<noteq> []" "lexer s = c @ lexer s1" by blast
  then have "length (lexer s1) < length (lexer s)" by (cases c) auto
  moreover from expect_length [OF b] have "length (lexer s2) < length (lexer s1)" by simp
  moreover have "length (lexer s3) < length (lexer s2)"
    using poly_step_less [of _ "s2\<lparr>current_poly_params := params h, in_poly_decl := True\<rparr>" s3]
      poly_parsers_step(1) [OF c] by auto
  moreover from expect_length [OF d] have "length (lexer s4) < length (lexer s3)" by simp
  ultimately show ?thesis using e by simp
qed

function parse_poly_decl_list :: "parser_state \<Rightarrow> error + parser_state" where
  "parse_poly_decl_list s =
     (case parse_poly_decl s of
        Inl e \<Rightarrow> Inl e
      | Inr s1 \<Rightarrow> if token_type (peek 1 s1) = ID then parse_poly_decl_list s1 else Inr s1)"
  by pat_completeness auto
termination
proof (relation "measure (\<lambda>s. length (lexer s))", goal_cases)
  case 1
  show ?case by simp
next
  case (2 s s1)
  then show ?case using parse_poly_decl_length [of s s1] by simp
qed

declare parse_poly_decl_list.simps [simp del]

definition parse_poly_section :: "parser_state \<Rightarrow> error + parser_state" where
  "parse_poly_section s =
     (case expect POLY s of Inl e \<Rightarrow> Inl e | Inr (_, s1) \<Rightarrow> parse_poly_decl_list s1)"

subsection \<open>Calls in the execution script\<close>

definition undeclared_error :: "int \<Rightarrow> string" where
  "undeclared_error eval_line = ''Semantic Error Code 3: '' @ to_string eval_line"

definition arity_error :: "int \<Rightarrow> string" where
  "arity_error eval_line = ''Semantic Error Code 4: '' @ to_string eval_line"

text \<open>
  The check that ends \<^verbatim>\<open>parse_call_expr_from_token\<close> and \<^verbatim>\<open>parse_poly_eval_expr\<close>: a call of a
  declared name with the wrong number of arguments is recorded with code 4, a call of a
  name that is not declared with code 3.
\<close>

definition record_call_finding :: "string \<Rightarrow> nat \<Rightarrow> int \<Rightarrow> parser_state \<Rightarrow> parser_state" where
  "record_call_finding polyName nargs eval_line s =
     (case poly_declarations s polyName of
        Some ps \<Rightarrow>
          if nargs \<noteq> length ps
          then s\<lparr>semantic_errors := semantic_errors s @ [arity_error eval_line]\<rparr>
          else s
      | None \<Rightarrow> s\<lparr>semantic_errors := semantic_errors s @ [undeclared_error eval_line]\<rparr>)"

function parse_argument_expr :: "parser_state \<Rightarrow> error + (Expr \<times> parser_state)"
  and parse_call_expr_from_token :: "Token \<Rightarrow> parser_state \<Rightarrow> error + (Expr \<times> parser_state)"
  and parse_call_args :: "Expr list \<Rightarrow> parser_state \<Rightarrow> error + (Expr list \<times> parser_state)"
where
  "parse_argument_expr s =
     (let t = peek 1 s in
      if token_type t = ID then
        (let t2 = peek 2 s in
         if token_type t2 = LPAREN then
           (case expect ID s of
              Inl e \<Rightarrow> Inl e
            | Inr (idToken, s1) \<Rightarrow> parse_call_expr_from_token idToken s1)
         else
           (case expect ID s of
              Inl e \<Rightarrow> Inl e
            | Inr (t', s1) \<Rightarrow> Inr (VarExpr (lexeme t') (line_no t'), s1)))
      else if token_type t = NUM then
        (case expect NUM s of
           Inl e \<Rightarrow> Inl e
         | Inr (t', s1) \<Rightarrow> Inr (ConstExpr (word_of_int (atoi (lexeme t'))), s1))
      else Inl SyntaxError)"
| "parse_call_expr_from_token idToken s =
     (case expect LPAREN s of
        Inl e \<Rightarrow> Inl e
      | Inr (_, s1) \<Rightarrow>
          (case parse_argument_expr s1 of
             Inl e \<Rightarrow> Inl e
           | Inr (a, s2) \<Rightarrow>
               (case parse_call_args [a] s2 of
                  Inl e \<Rightarrow> Inl e
                | Inr (args, s3) \<Rightarrow>
                    (case expect RPAREN s3 of
                       Inl e \<Rightarrow> Inl e
                     | Inr (_, s4) \<Rightarrow>
                         Inr (CallExpr (lexeme idToken) args,
                              record_call_finding (lexeme idToken) (length args) (line_no idToken) s4)))))"
| "parse_call_args args s =
     (if token_type (peek 1 s) = COMMA then
        (case expect COMMA s of
           Inl e \<Rightarrow> Inl e
         | Inr (_, s1) \<Rightarrow>
             (case parse_argument_expr s1 of
                Inl e \<Rightarrow> Inl e
              | Inr (a, s2) \<Rightarrow> parse_call_args (args @ [a]) s2))
      else Inr (args, s))"
  by pat_completeness auto

text \<open>
  What a successful run of these parsers does to the state: it takes a prefix \<open>c\<close> off the
  token stream and appends call findings to \<^verbatim>\<open>semantic_errors\<close>; nothing else changes.
\<close>

definition is_call_finding :: "string \<Rightarrow> bool" where
  "is_call_finding err \<longleftrightarrow> (\<exists>ln. err = undeclared_error ln \<or> err = arity_error ln)"

definition call_step :: "parser_state \<Rightarrow> parser_state \<Rightarrow> Token list \<Rightarrow> bool" where
  "call_step s s' c \<longleftrightarrow>
     lexer s = c @ lexer s' \<and>
     (\<exists>errs. list_all is_call_finding errs \<and>
        s' = s\<lparr>lexer := lexer s', semantic_errors := semantic_errors s @ errs\<rparr>)"

lemma call_step_refl: "call_step s s []"
  by (auto simp: call_step_def intro: exI [of _ "[]"])

lemma call_step_trans:
  assumes "call_step s s1 c1" and "call_step s1 s2 c2"
  shows "call_step s s2 (c1 @ c2)"
proof -
  from assms(1) obtain e1 where
    a: "lexer s = c1 @ lexer s1" "list_all is_call_finding e1"
       "s1 = s\<lparr>lexer := lexer s1, semantic_errors := semantic_errors s @ e1\<rparr>"
    by (auto simp: call_step_def)
  from assms(2) obtain e2 where
    b: "lexer s1 = c2 @ lexer s2" "list_all is_call_finding e2"
       "s2 = s1\<lparr>lexer := lexer s2, semantic_errors := semantic_errors s1 @ e2\<rparr>"
    by (auto simp: call_step_def)
  have "s2 = s\<lparr>lexer := lexer s2, semantic_errors := semantic_errors s @ (e1 @ e2)\<rparr>"
    using a(3) b(3) by (cases s; cases s1; cases s2) simp
  moreover have "list_all is_call_finding (e1 @ e2)" using a(2) b(2) by simp
  moreover have "lexer s = (c1 @ c2) @ lexer s2" using a(1) b(1) by simp
  ultimately show ?thesis unfolding call_step_def by blast
qed

lemma call_step_length: "call_step s s' c \<Longrightarrow> length (lexer s) = length c + length (lexer s')"
  by (simp add: call_step_def)

lemma lexer_step_call_step:
  assumes "lexer_step s s' c"
  shows "call_step s s' c"
proof -
  have "s' = s\<lparr>lexer := lexer s', semantic_errors := semantic_errors s @ []\<rparr>"
    using assms by (cases s; cases s') (simp add: lexer_step_def)
  moreover have "list_all is_call_finding []" by simp
  moreover have "lexer s = c @ lexer s'" using assms by (simp add: lexer_step_def)
  ultimately show ?thesis unfolding call_step_def by blast
qed

lemma expect_call_step:
  "expect ty s = Inr (t, s') \<Longrightarrow> ty \<noteq> END_OF_FILE \<Longrightarrow> call_step s s' [t]"
  by (blast dest: expect_lexer_step intro: lexer_step_call_step)

lemma record_call_finding_step: "call_step s (record_call_finding f n ln s) []"
proof -
  have "is_call_finding (arity_error ln)" "is_call_finding (undeclared_error ln)"
    by (auto simp: is_call_finding_def)
  then show ?thesis
    by (auto simp: record_call_finding_def call_step_def split: option.splits
        intro: exI [of _ "[]"] exI [of _ "[arity_error ln]"] exI [of _ "[undeclared_error ln]"])
qed

abbreviation call_dom where
  "call_dom \<equiv> parse_argument_expr_parse_call_expr_from_token_parse_call_args_dom"

lemma call_parsers_step_dom:
  "call_dom (Inl s) \<Longrightarrow> parse_argument_expr s = Inr (e, s') \<Longrightarrow> \<exists>c. c \<noteq> [] \<and> call_step s s' c"
  "call_dom (Inr (Inl (idToken, s))) \<Longrightarrow> parse_call_expr_from_token idToken s = Inr (e, s') \<Longrightarrow>
     \<exists>c. c \<noteq> [] \<and> call_step s s' c"
  "call_dom (Inr (Inr (args, s))) \<Longrightarrow> parse_call_args args s = Inr (args', s') \<Longrightarrow> \<exists>c. call_step s s' c"
proof (induct arbitrary: e s' and e s' and args' s'
    rule: parse_argument_expr_parse_call_expr_from_token_parse_call_args.pinduct)
  case (1 s)
  consider (call) "token_type (peek 1 s) = ID" "token_type (peek 2 s) = LPAREN"
    | (var) "token_type (peek 1 s) = ID" "token_type (peek 2 s) \<noteq> LPAREN"
    | (num) "token_type (peek 1 s) \<noteq> ID" "token_type (peek 1 s) = NUM"
    | (err) "token_type (peek 1 s) \<noteq> ID" "token_type (peek 1 s) \<noteq> NUM"
    by blast
  then show ?case
  proof cases
    case call
    with 1(3) obtain t s1 where
      a: "expect ID s = Inr (t, s1)" and b: "parse_call_expr_from_token t s1 = Inr (e, s')"
      by (auto simp: parse_argument_expr.psimps [OF 1(1)] Let_def bind_Inr)
    obtain c where "call_step s1 s' c" using 1(2) [OF refl call(1) refl call(2) a refl b] by blast
    with expect_call_step [OF a] have "call_step s s' ([t] @ c)" by (blast intro: call_step_trans)
    then show ?thesis by blast
  next
    case var
    with 1(3) obtain t where a: "expect ID s = Inr (t, s')"
      by (auto simp: parse_argument_expr.psimps [OF 1(1)] Let_def bind_Inr)
    with expect_call_step [OF a] show ?thesis by blast
  next
    case num
    with 1(3) obtain t where a: "expect NUM s = Inr (t, s')"
      by (auto simp: parse_argument_expr.psimps [OF 1(1)] Let_def bind_Inr)
    with expect_call_step [OF a] show ?thesis by blast
  next
    case err
    with 1(3) show ?thesis by (simp add: parse_argument_expr.psimps [OF 1(1)] Let_def)
  qed
next
  case (2 idToken s)
  from 2(4) obtain t1 s1 a s2 args s3 t4 s4 where
    a: "expect LPAREN s = Inr (t1, s1)" and b: "parse_argument_expr s1 = Inr (a, s2)"
    and c: "parse_call_args [a] s2 = Inr (args, s3)" and d: "expect RPAREN s3 = Inr (t4, s4)"
    and e: "s' = record_call_finding (lexeme idToken) (length args) (line_no idToken) s4"
    by (auto simp: parse_call_expr_from_token.psimps [OF 2(1)] bind_Inr)
  obtain c1 where "call_step s1 s2 c1" using 2(2) [OF a refl b] by blast
  moreover obtain c2 where "call_step s2 s3 c2" using 2(3) [OF a refl b refl c] by blast
  moreover note expect_call_step [OF a] expect_call_step [OF d]
    record_call_finding_step [of s4 "lexeme idToken" "length args" "line_no idToken"]
  ultimately have "call_step s s' ([t1] @ c1 @ c2 @ [t4] @ [])"
    unfolding e by (blast intro: call_step_trans)
  then show ?case by blast
next
  case (3 args s)
  show ?case
  proof (cases "token_type (peek 1 s) = COMMA")
    case True
    with 3(4) obtain t1 s1 a s2 where
      a: "expect COMMA s = Inr (t1, s1)" and b: "parse_argument_expr s1 = Inr (a, s2)"
      and c: "parse_call_args (args @ [a]) s2 = Inr (args', s')"
      by (auto simp: parse_call_args.psimps [OF 3(1)] bind_Inr)
    obtain c1 where "call_step s1 s2 c1" using 3(2) [OF True a refl b] by blast
    moreover obtain c2 where "call_step s2 s' c2" using 3(3) [OF True a refl b refl c] by blast
    moreover note expect_call_step [OF a]
    ultimately have "call_step s s' ([t1] @ c1 @ c2)" by (blast intro: call_step_trans)
    then show ?thesis ..
  next
    case False
    with 3(4) have "s' = s" by (simp add: parse_call_args.psimps [OF 3(1)])
    then show ?thesis using call_step_refl by blast
  qed
qed

lemma call_step_less: "c \<noteq> [] \<and> call_step s s' c \<Longrightarrow> length (lexer s') < length (lexer s)"
  by (cases c) (auto dest: call_step_length)

lemma call_step_le: "call_step s s' c \<Longrightarrow> length (lexer s') \<le> length (lexer s)"
  by (auto dest: call_step_length)

lemma call_parsers_consume:
  "call_dom (Inl s) \<Longrightarrow> parse_argument_expr s = Inr (e, s') \<Longrightarrow> length (lexer s') < length (lexer s)"
  using call_parsers_step_dom(1) call_step_less by blast

lemma call_parsers_total: "All call_dom"
proof (relation "measure (\<lambda>x. case x of
        Inl s \<Rightarrow> length (lexer s)
      | Inr (Inl (t, s)) \<Rightarrow> length (lexer s)
      | Inr (Inr (a, s)) \<Rightarrow> length (lexer s))", goal_cases)
  case 1
  show ?case by simp
next
  case (2 s x xa xb xc y)
  then show ?case using expect_length [of ID s xc y] by auto
next
  case (3 idToken s x xa y)
  then show ?case using expect_length [of LPAREN s xa y] by auto
next
  case (4 idToken s x xa y xb xc ya)
  then show ?case
    using expect_length [of LPAREN s xa y] call_parsers_consume [of y xc ya] by auto
next
  case (5 args s x xa y)
  then show ?case using expect_length [of COMMA s xa y] by auto
next
  case (6 args s x xa y xb xc ya)
  then show ?case
    using expect_length [of COMMA s xa y] call_parsers_consume [of y xc ya] by auto
qed

termination parse_argument_expr
  by (rule call_parsers_total)

declare parse_argument_expr.simps [simp del] parse_call_expr_from_token.simps [simp del]
  parse_call_args.simps [simp del]

lemma call_parsers_step:
  "parse_argument_expr s = Inr (e, s') \<Longrightarrow> \<exists>c. c \<noteq> [] \<and> call_step s s' c"
  "parse_call_expr_from_token idToken s = Inr (e, s') \<Longrightarrow> \<exists>c. c \<noteq> [] \<and> call_step s s' c"
  "parse_call_args args s = Inr (args', s') \<Longrightarrow> \<exists>c. call_step s s' c"
proof -
  have d: "\<And>x. call_dom x" using call_parsers_total by simp
  show "parse_argument_expr s = Inr (e, s') \<Longrightarrow> \<exists>c. c \<noteq> [] \<and> call_step s s' c"
    by (rule call_parsers_step_dom(1) [OF d])
  show "parse_call_expr_from_token idToken s = Inr (e, s') \<Longrightarrow> \<exists>c. c \<noteq> [] \<and> call_step s s' c"
    by (rule call_parsers_step_dom(2) [OF d])
  show "parse_call_args args s = Inr (args', s') \<Longrightarrow> \<exists>c. call_step s s' c"
    by (rule call_parsers_step_dom(3) [OF d])
qed

text \<open>
  \<^verbatim>\<open>parse_poly_eval_expr\<close>, the right-hand side of an assignment: a call, parsed as in
  \<^verbatim>\<open>parse_call_expr_from_token\<close> after the name is noted in \<^verbatim>\<open>used_polynomials\<close>.
\<close>

definition parse_poly_eval_expr :: "parser_state \<Rightarrow> error + (Expr \<times> parser_state)" where
  "parse_poly_eval_expr s =
     (case expect ID s of
        Inl e \<Rightarrow> Inl e
      | Inr (t, s0) \<Rightarrow>
          (case expect LPAREN (s0\<lparr>used_polynomials := insert (lexeme t) (used_polynomials s0)\<rparr>) of
             Inl e \<Rightarrow> Inl e
           | Inr (_, s1) \<Rightarrow>
               (case parse_argument_expr s1 of
                  Inl e \<Rightarrow> Inl e
                | Inr (a, s2) \<Rightarrow>
                    (case parse_call_args [a] s2 of
                       Inl e \<Rightarrow> Inl e
                     | Inr (args, s3) \<Rightarrow>
                         (case expect RPAREN s3 of
                            Inl e \<Rightarrow> Inl e
                          | Inr (_, s4) \<Rightarrow>
                              Inr (CallExpr (lexeme t) args,
                                   record_call_finding (lexeme t) (length args) (line_no t) s4))))))"

lemma parse_poly_eval_expr_length:
  assumes "parse_poly_eval_expr s = Inr (e, s')"
  shows "length (lexer s') < length (lexer s)"
proof -
  from assms obtain t s0 t1 s1 a s2 args s3 t4 s4 where
    a: "expect ID s = Inr (t, s0)"
    and b: "expect LPAREN (s0\<lparr>used_polynomials := insert (lexeme t) (used_polynomials s0)\<rparr>) = Inr (t1, s1)"
    and c: "parse_argument_expr s1 = Inr (a, s2)"
    and d: "parse_call_args [a] s2 = Inr (args, s3)"
    and e: "expect RPAREN s3 = Inr (t4, s4)"
    and f: "s' = record_call_finding (lexeme t) (length args) (line_no t) s4"
    by (auto simp: parse_poly_eval_expr_def bind_Inr)
  have "length (lexer s0) < length (lexer s)" using expect_length [OF a] by simp
  moreover have "length (lexer s1) < length (lexer s0)" using expect_length [OF b] by simp
  moreover have "length (lexer s2) < length (lexer s1)"
    using call_parsers_step(1) [OF c] call_step_less by blast
  moreover have "length (lexer s3) \<le> length (lexer s2)"
    using call_parsers_step(3) [OF d] call_step_le by blast
  moreover have "length (lexer s4) < length (lexer s3)" using expect_length [OF e] by simp
  moreover have "length (lexer s') = length (lexer s4)"
    using record_call_finding_step [of s4 "lexeme t" "length args" "line_no t"]
    unfolding f by (simp add: call_step_def)
  ultimately show ?thesis by simp
qed

subsection \<open>The EXECUTE and INPUTS sections\<close>

definition parse_input_statement_exec :: "parser_state \<Rightarrow> error + (Statement \<times> parser_state)" where
  "parse_input_statement_exec s =
     (case expect INPUT s of
        Inl e \<Rightarrow> Inl e
      | Inr (_, s1) \<Rightarrow>
          (case expect ID s1 of
             Inl e \<Rightarrow> Inl e
           | Inr (t, s2) \<Rightarrow>
               (case expect SEMICOLON s2 of
                  Inl e \<Rightarrow> Inl e
                | Inr (_, s3) \<Rightarrow> Inr (InputStmt (lexeme t), s3))))"

definition parse_output_statement_exec :: "parser_state \<Rightarrow> error + (Statement \<times> parser_state)" where
  "parse_output_statement_exec s =
     (case expect OUTPUT s of
        Inl e \<Rightarrow> Inl e
      | Inr (_, s1) \<Rightarrow>
          (case expect ID s1 of
             Inl e \<Rightarrow> Inl e
           | Inr (t, s2) \<Rightarrow>
               (case expect SEMICOLON s2 of
                  Inl e \<Rightarrow> Inl e
                | Inr (_, s3) \<Rightarrow> Inr (OutputStmt (lexeme t), s3))))"

definition parse_assign_statement_exec :: "parser_state \<Rightarrow> error + (Statement \<times> parser_state)" where
  "parse_assign_statement_exec s =
     (case expect ID s of
        Inl e \<Rightarrow> Inl e
      | Inr (t, s1) \<Rightarrow>
          (case expect EQUAL s1 of
             Inl e \<Rightarrow> Inl e
           | Inr (_, s2) \<Rightarrow>
               (case parse_poly_eval_expr s2 of
                  Inl e \<Rightarrow> Inl e
                | Inr (callExpr, s3) \<Rightarrow>
                    (case expect SEMICOLON s3 of
                       Inl e \<Rightarrow> Inl e
                     | Inr (_, s4) \<Rightarrow> Inr (AssignStmt (lexeme t) (line_no t) callExpr, s4)))))"

definition parse_statement_exec :: "parser_state \<Rightarrow> error + (Statement \<times> parser_state)" where
  "parse_statement_exec s =
     (let t = peek 1 s in
      if token_type t = INPUT then parse_input_statement_exec s
      else if token_type t = OUTPUT then parse_output_statement_exec s
      else if token_type t = ID then parse_assign_statement_exec s
      else Inl SyntaxError)"

lemma parse_statement_exec_length:
  assumes "parse_statement_exec s = Inr (stmt, s')"
  shows "length (lexer s') < length (lexer s)"
proof -
  consider (inp) "parse_input_statement_exec s = Inr (stmt, s')"
    | (out) "parse_output_statement_exec s = Inr (stmt, s')"
    | (asg) "parse_assign_statement_exec s = Inr (stmt, s')"
    using assms by (auto simp: parse_statement_exec_def Let_def split: if_splits)
  then show ?thesis
  proof cases
    case inp
    then obtain t1 s1 t2 s2 t3 where
      "expect INPUT s = Inr (t1, s1)" "expect ID s1 = Inr (t2, s2)" "expect SEMICOLON s2 = Inr (t3, s')"
      by (auto simp: parse_input_statement_exec_def bind_Inr)
    then show ?thesis
      using expect_length [of INPUT s t1 s1] expect_length [of ID s1 t2 s2]
        expect_length [of SEMICOLON s2 t3 s'] by simp
  next
    case out
    then obtain t1 s1 t2 s2 t3 where
      "expect OUTPUT s = Inr (t1, s1)" "expect ID s1 = Inr (t2, s2)" "expect SEMICOLON s2 = Inr (t3, s')"
      by (auto simp: parse_output_statement_exec_def bind_Inr)
    then show ?thesis
      using expect_length [of OUTPUT s t1 s1] expect_length [of ID s1 t2 s2]
        expect_length [of SEMICOLON s2 t3 s'] by simp
  next
    case asg
    then obtain t1 s1 t2 s2 e s3 t3 where
      "expect ID s = Inr (t1, s1)" "expect EQUAL s1 = Inr (t2, s2)"
      "parse_poly_eval_expr s2 = Inr (e, s3)" "expect SEMICOLON s3 = Inr (t3, s')"
      by (auto simp: parse_assign_statement_exec_def bind_Inr)
    then show ?thesis
      using expect_length [of ID s t1 s1] expect_length [of EQUAL s1 t2 s2]
        parse_poly_eval_expr_length [of s2 e s3] expect_length [of SEMICOLON s3 t3 s'] by simp
  qed
qed

function parse_statement_list_exec :: "parser_state \<Rightarrow> error + parser_state" where
  "parse_statement_list_exec s =
     (case parse_statement_exec s of
        Inl e \<Rightarrow> Inl e
      | Inr (stmt, s1) \<Rightarrow>
          (let s2 = s1\<lparr>execStatements := execStatements s1 @ [stmt]\<rparr>;
               t = peek 1 s2
           in if token_type t = INPUT \<or> token_type t = OUTPUT \<or> token_type t = ID
              then parse_statement_list_exec s2
              else Inr s2))"
  by pat_completeness auto
termination
proof (relation "measure (\<lambda>s. length (lexer s))", goal_cases)
  case 1
  show ?case by simp
next
  case (2 s x stmt s1 s2 t)
  then show ?case using parse_statement_exec_length [of s stmt s1] by simp
qed

declare parse_statement_list_exec.simps [simp del]

definition parse_execute_section :: "parser_state \<Rightarrow> error + parser_state" where
  "parse_execute_section s =
     (case expect EXECUTE s of Inl e \<Rightarrow> Inl e | Inr (_, s1) \<Rightarrow> parse_statement_list_exec s1)"

function parse_inputs_loop :: "parser_state \<Rightarrow> error + parser_state" where
  "parse_inputs_loop s =
     (if token_type (peek 1 s) = NUM then
        (case expect NUM s of
           Inl e \<Rightarrow> Inl e
         | Inr (t, s1) \<Rightarrow>
             parse_inputs_loop (s1\<lparr>execInputs := execInputs s1 @ [word_of_int (atoi (lexeme t))]\<rparr>))
      else Inr s)"
  by pat_completeness auto
termination
proof (relation "measure (\<lambda>s. length (lexer s))", goal_cases)
  case 1
  show ?case by simp
next
  case (2 s x t s1)
  then show ?case using expect_length [of NUM s t s1] by simp
qed

declare parse_inputs_loop.simps [simp del]

definition parse_inputs_section :: "parser_state \<Rightarrow> error + parser_state" where
  "parse_inputs_section s =
     (case expect INPUTS s of
        Inl e \<Rightarrow> Inl e
      | Inr (_, s1) \<Rightarrow>
          if token_type (peek 1 s1) \<noteq> NUM then Inl SyntaxError else parse_inputs_loop s1)"

subsection \<open>The whole program\<close>

definition parse_program :: "parser_state \<Rightarrow> error + parser_state" where
  "parse_program s =
     (case parse_tasks_section s of
        Inl e \<Rightarrow> Inl e
      | Inr s1 \<Rightarrow>
          (case parse_poly_section s1 of
             Inl e \<Rightarrow> Inl e
           | Inr s2 \<Rightarrow>
               (case parse_execute_section s2 of
                  Inl e \<Rightarrow> Inl e
                | Inr s3 \<Rightarrow> parse_inputs_section s3)))"

text \<open>
  \<^verbatim>\<open>ConsumeAllInput\<close> up to its last statement, the call of \<^verbatim>\<open>check_semantic_errors\<close>, which
  \<open>main\<close> below makes.
\<close>

definition ConsumeAllInput :: "parser_state \<Rightarrow> error + parser_state" where
  "ConsumeAllInput s =
     (case parse_program s of
        Inl e \<Rightarrow> Inl e
      | Inr s1 \<Rightarrow>
          if token_type (peek 1 s1) \<noteq> END_OF_FILE then Inl SyntaxError
          else (case expect END_OF_FILE s1 of Inl e \<Rightarrow> Inl e | Inr (_, s2) \<Rightarrow> Inr s2))"

section \<open>The semantic error check\<close>

text \<open>A printed line: the label, then a blank and the number for every line number.\<close>

definition report_line :: "string \<Rightarrow> int list \<Rightarrow> string" where
  "report_line label lines = label @ concat (map (\<lambda>n. '' '' @ to_string n) lines)"

text \<open>\<^verbatim>\<open>s.find(p) == 0\<close>: the string starts with \<open>p\<close>.\<close>

definition starts_with :: "string \<Rightarrow> string \<Rightarrow> bool" where
  "starts_with s p \<longleftrightarrow> take (length p) s = p"

text \<open>
  \<^verbatim>\<open>err.substr(err.find(":") + 1)\<close>: what follows the first colon; \<open>None\<close> when there is no
  colon.
\<close>

definition after_colon :: "string \<Rightarrow> string option" where
  "after_colon err = (case dropWhile (\<lambda>c. c \<noteq> CHR '':'') err of [] \<Rightarrow> None | _ # rest \<Rightarrow> Some rest)"

fun collect_lines :: "string list \<Rightarrow> int list \<Rightarrow> error + int list" where
  "collect_lines [] lines = Inr lines"
| "collect_lines (err # errs) lines =
     (case after_colon err of
        None \<Rightarrow> collect_lines errs lines
      | Some rest \<Rightarrow>
          (case stoi rest of
             None \<Rightarrow> Inl InvalidArgument
           | Some n \<Rightarrow> collect_lines errs (lines @ [n])))"

text \<open>
  \<^verbatim>\<open>check_semantic_errors\<close>: \<open>Inr (Some out)\<close> when it prints \<open>out\<close> and calls \<^verbatim>\<open>exit(0)\<close>,
  \<open>Inr None\<close> when it returns, \<open>Inl\<close> when \<^verbatim>\<open>stoi\<close> throws.
\<close>

definition check_semantic_errors :: "parser_state \<Rightarrow> error + string list option" where
  "check_semantic_errors s =
     (if duplicate_decl_lines s \<noteq> [] then
        Inr (Some [report_line ''Semantic Error Code 1:'' (sort (duplicate_decl_lines s))])
      else if invalid_monomial_lines s \<noteq> [] then
        Inr (Some [report_line ''Semantic Error Code 2:'' (sort (invalid_monomial_lines s))])
      else if semantic_errors s \<noteq> [] then
        (if starts_with (hd (semantic_errors s)) ''Semantic Error Code 3:'' then
           (case collect_lines (semantic_errors s) [] of
              Inl e \<Rightarrow> Inl e
            | Inr lines \<Rightarrow> Inr (Some [report_line ''Semantic Error Code 3:'' (sort lines)]))
         else if starts_with (hd (semantic_errors s)) ''Semantic Error Code 4:'' then
           (case collect_lines (semantic_errors s) [] of
              Inl e \<Rightarrow> Inl e
            | Inr lines \<Rightarrow> Inr (Some [report_line ''Semantic Error Code 4:'' (sort lines)]))
         else Inr (Some (semantic_errors s)))
      else Inr None)"

section \<open>Evaluation\<close>

type_synonym env = "string \<rightharpoonup> cint"

text \<open>The loop of \<^verbatim>\<open>PowExpr::evaluate\<close>, \<open>k\<close> iterations to go.\<close>

fun pow_loop :: "nat \<Rightarrow> cint \<Rightarrow> cint \<Rightarrow> cint" where
  "pow_loop 0 bval res = res"
| "pow_loop (Suc k) bval res = pow_loop k bval (res * bval)"

text \<open>The loop of \<^verbatim>\<open>evaluatePolyCall\<close> that binds the parameters, from index \<open>i\<close> on.\<close>

function bind_params :: "nat \<Rightarrow> string list \<Rightarrow> cint list \<Rightarrow> env \<Rightarrow> env" where
  "bind_params i ps args env =
     (if i < length ps
      then bind_params (Suc i) ps args (env(ps ! i \<mapsto> (if i < length args then args ! i else 0)))
      else env)"
  by pat_completeness auto
termination
  by (relation "measure (\<lambda>(i, ps, args, env). length ps - i)") auto

declare bind_params.simps [simp del]

text \<open>
  \<^verbatim>\<open>evaluate\<close> and \<^verbatim>\<open>evaluatePolyCall\<close>. A call evaluates the stored body of the callee, which
  is not a part of the calling expression, so the recursion is bounded by a number of
  nested calls that may still be entered: \<open>None\<close> is the evaluation that needs more. The
  tables are \<^verbatim>\<open>poly_declarations\<close> and \<^verbatim>\<open>polyExprs\<close>.
\<close>

fun evaluate :: "nat \<Rightarrow> (string \<rightharpoonup> string list) \<Rightarrow> (string \<rightharpoonup> Expr) \<Rightarrow> Expr \<Rightarrow> env \<Rightarrow> cint option"
  and evaluatePolyCall ::
    "nat \<Rightarrow> (string \<rightharpoonup> string list) \<Rightarrow> (string \<rightharpoonup> Expr) \<Rightarrow> string \<Rightarrow> cint list \<Rightarrow> cint option"
where
  "evaluate fuel decls bodies (ConstExpr v) env = Some v"
| "evaluate fuel decls bodies (VarExpr x ln) env = Some (case env x of Some v \<Rightarrow> v | None \<Rightarrow> 0)"
| "evaluate fuel decls bodies (AddExpr l r) env =
     (case evaluate fuel decls bodies l env of
        None \<Rightarrow> None
      | Some a \<Rightarrow> (case evaluate fuel decls bodies r env of None \<Rightarrow> None | Some b \<Rightarrow> Some (a + b)))"
| "evaluate fuel decls bodies (SubExpr l r) env =
     (case evaluate fuel decls bodies l env of
        None \<Rightarrow> None
      | Some a \<Rightarrow> (case evaluate fuel decls bodies r env of None \<Rightarrow> None | Some b \<Rightarrow> Some (a - b)))"
| "evaluate fuel decls bodies (MulExpr l r) env =
     (case evaluate fuel decls bodies l env of
        None \<Rightarrow> None
      | Some a \<Rightarrow> (case evaluate fuel decls bodies r env of None \<Rightarrow> None | Some b \<Rightarrow> Some (a * b)))"
| "evaluate fuel decls bodies (PowExpr b e) env =
     (case evaluate fuel decls bodies b env of
        None \<Rightarrow> None
      | Some bval \<Rightarrow> Some (pow_loop (nat (sint e)) bval 1))"
| "evaluate fuel decls bodies (CallExpr polyName args) env =
     (case those (map (\<lambda>e. evaluate fuel decls bodies e env) args) of
        None \<Rightarrow> None
      | Some argVals \<Rightarrow> evaluatePolyCall fuel decls bodies polyName argVals)"
| "evaluatePolyCall fuel decls bodies polyName args =
     (case decls polyName of
        None \<Rightarrow> Some 0
      | Some ps \<Rightarrow>
          (case bodies polyName of
             None \<Rightarrow> Some 0
           | Some body \<Rightarrow>
               (case fuel of
                  0 \<Rightarrow> None
                | Suc k \<Rightarrow> evaluate k decls bodies body (bind_params 0 ps args Map.empty))))"

section \<open>Execution\<close>

text \<open>
  The globals of the execution engine: the symbol table (name to slot, one entry per
  name), the memory of 1000 cells, the index of the next input, and what has been
  written to the standard output.
\<close>

record exec_state =
  execSymbolTable :: "(string \<times> nat) list"
  mem :: "cint list"
  nextInputIndex :: nat
  stdout :: "string list"

definition initial_exec_state :: exec_state where
  "initial_exec_state =
     \<lparr>execSymbolTable = [], mem = replicate 1000 0, nextInputIndex = 0, stdout = []\<rparr>"

text \<open>The first lines of every \<^verbatim>\<open>execute\<close>: a name seen for the first time gets the next slot.\<close>

definition ensure_slot :: "string \<Rightarrow> exec_state \<Rightarrow> exec_state" where
  "ensure_slot var st =
     (if map_of (execSymbolTable st) var = None
      then st\<lparr>execSymbolTable := execSymbolTable st @ [(var, length (execSymbolTable st))]\<rparr>
      else st)"

definition slot_of :: "string \<Rightarrow> exec_state \<Rightarrow> nat" where
  "slot_of var st = (case map_of (execSymbolTable st) var of Some loc \<Rightarrow> loc | None \<Rightarrow> 0)"

text \<open>
  The loop of \<^verbatim>\<open>AssignStmt::execute\<close> that builds the environment: for every slot \<open>i\<close> below
  the size of the symbol table, the first entry with that slot gives the name.
\<close>

function build_env :: "nat \<Rightarrow> nat \<Rightarrow> exec_state \<Rightarrow> env \<Rightarrow> error + env" where
  "build_env i n st env =
     (if i < n then
        (case find (\<lambda>p. snd p = i) (execSymbolTable st) of
           None \<Rightarrow> build_env (Suc i) n st env
         | Some p \<Rightarrow>
             if i < length (mem st) then build_env (Suc i) n st (env(fst p \<mapsto> mem st ! i))
             else Inl MemoryExceeded)
      else Inr env)"
  by pat_completeness auto
termination
  by (relation "measure (\<lambda>(i, n, st, env). n - i)") auto

declare build_env.simps [simp del]

text \<open>
  \<^verbatim>\<open>execute\<close> of the three statements. A read past the end of the inputs or of the memory
  is undefined in C++; here it is an error. The tables and the inputs are the parser's.
\<close>

fun execute :: "nat \<Rightarrow> parser_state \<Rightarrow> Statement \<Rightarrow> exec_state \<Rightarrow> error + exec_state" where
  "execute fuel ps (InputStmt var) st0 =
     (let st = ensure_slot var st0 in
      if nextInputIndex st < length (execInputs ps) then
        if slot_of var st < length (mem st) then
          Inr (st\<lparr>mem := (mem st)[slot_of var st := execInputs ps ! nextInputIndex st],
                 nextInputIndex := Suc (nextInputIndex st)\<rparr>)
        else Inl MemoryExceeded
      else Inl InputExhausted)"
| "execute fuel ps (OutputStmt var) st0 =
     (let st = ensure_slot var st0 in
      if slot_of var st < length (mem st) then
        Inr (st\<lparr>stdout := stdout st @ [to_string (sint (mem st ! slot_of var st))]\<rparr>)
      else Inl MemoryExceeded)"
| "execute fuel ps (AssignStmt var ln rhs) st0 =
     (let st = ensure_slot var st0 in
      case build_env 0 (length (execSymbolTable st)) st Map.empty of
        Inl e \<Rightarrow> Inl e
      | Inr env \<Rightarrow>
          (case evaluate fuel (poly_declarations ps) (polyExprs ps) rhs env of
             None \<Rightarrow> Inl CallDepthExceeded
           | Some v \<Rightarrow>
               if slot_of var st < length (mem st) then
                 Inr (st\<lparr>mem := (mem st)[slot_of var st := v]\<rparr>)
               else Inl MemoryExceeded))"

fun execute_program :: "nat \<Rightarrow> parser_state \<Rightarrow> Statement list \<Rightarrow> exec_state \<Rightarrow> error + exec_state" where
  "execute_program fuel ps [] st = Inr st"
| "execute_program fuel ps (stmt # rest) st =
     (case execute fuel ps stmt st of
        Inl e \<Rightarrow> Inl e
      | Inr st' \<Rightarrow> execute_program fuel ps rest st')"

section \<open>The analyses of the execution script\<close>

fun check_expr_for_uninit :: "Expr \<Rightarrow> string set \<Rightarrow> int list \<Rightarrow> int list" where
  "check_expr_for_uninit (ConstExpr v) initVars warnings = warnings"
| "check_expr_for_uninit (VarExpr x ln) initVars warnings =
     (if x \<notin> initVars then warnings @ [ln] else warnings)"
| "check_expr_for_uninit (AddExpr l r) initVars warnings =
     check_expr_for_uninit r initVars (check_expr_for_uninit l initVars warnings)"
| "check_expr_for_uninit (SubExpr l r) initVars warnings =
     check_expr_for_uninit r initVars (check_expr_for_uninit l initVars warnings)"
| "check_expr_for_uninit (MulExpr l r) initVars warnings =
     check_expr_for_uninit r initVars (check_expr_for_uninit l initVars warnings)"
| "check_expr_for_uninit (PowExpr b e) initVars warnings = check_expr_for_uninit b initVars warnings"
| "check_expr_for_uninit (CallExpr f args) initVars warnings =
     fold (\<lambda>arg w. check_expr_for_uninit arg initVars w) args warnings"

text \<open>The loop of \<^verbatim>\<open>checkUninitializedWarnings\<close> over the statements.\<close>

fun uninit_scan :: "Statement list \<Rightarrow> string set \<Rightarrow> int list \<Rightarrow> int list" where
  "uninit_scan [] initializedVars warningLines = warningLines"
| "uninit_scan (InputStmt var # rest) initializedVars warningLines =
     uninit_scan rest (insert var initializedVars) warningLines"
| "uninit_scan (OutputStmt var # rest) initializedVars warningLines =
     uninit_scan rest initializedVars warningLines"
| "uninit_scan (AssignStmt var ln rhs # rest) initializedVars warningLines =
     uninit_scan rest (insert var initializedVars)
       (check_expr_for_uninit rhs initializedVars warningLines)"

definition checkUninitializedWarnings :: "Statement list \<Rightarrow> string list" where
  "checkUninitializedWarnings stmts =
     (let warningLines = uninit_scan stmts {} [] in
      if warningLines \<noteq> [] then [report_line ''Warning Code 1:'' (sort warningLines)] else [])"

fun exprUsesVar :: "Expr \<Rightarrow> string \<Rightarrow> bool" where
  "exprUsesVar (ConstExpr v) var = False"
| "exprUsesVar (VarExpr x ln) var = (x = var)"
| "exprUsesVar (AddExpr l r) var = (exprUsesVar l var \<or> exprUsesVar r var)"
| "exprUsesVar (SubExpr l r) var = (exprUsesVar l var \<or> exprUsesVar r var)"
| "exprUsesVar (MulExpr l r) var = (exprUsesVar l var \<or> exprUsesVar r var)"
| "exprUsesVar (PowExpr b e) var = exprUsesVar b var"
| "exprUsesVar (CallExpr f args) var = list_ex (\<lambda>arg. exprUsesVar arg var) args"

text \<open>
  The inner loop of \<^verbatim>\<open>checkUselessAssignments\<close> over the statements after the assignment
  to \<open>var\<close>: the value of \<^verbatim>\<open>used\<close> when the loop ends.
\<close>

fun scan_used :: "string \<Rightarrow> Statement list \<Rightarrow> bool" where
  "scan_used var [] = False"
| "scan_used var (AssignStmt v ln rhs # rest) =
     (if v = var then exprUsesVar rhs var
      else if exprUsesVar rhs var then True
      else scan_used var rest)"
| "scan_used var (InputStmt v # rest) = (if v = var then False else scan_used var rest)"
| "scan_used var (OutputStmt v # rest) = (if v = var then True else scan_used var rest)"

text \<open>The outer loop, with the list of useless lines so far.\<close>

fun useless_scan :: "Statement list \<Rightarrow> int list \<Rightarrow> int list" where
  "useless_scan [] uselessLines = uselessLines"
| "useless_scan (AssignStmt var ln rhs # rest) uselessLines =
     useless_scan rest (if \<not> scan_used var rest then uselessLines @ [ln] else uselessLines)"
| "useless_scan (InputStmt var # rest) uselessLines = useless_scan rest uselessLines"
| "useless_scan (OutputStmt var # rest) uselessLines = useless_scan rest uselessLines"

definition checkUselessAssignments :: "Statement list \<Rightarrow> string list" where
  "checkUselessAssignments stmts =
     (let uselessLines = useless_scan stmts [] in
      if uselessLines \<noteq> [] then [report_line ''Warning Code 2:'' (sort uselessLines)] else [])"

section \<open>The program\<close>

text \<open>How a run ends: the exit status and the lines written, or an undefined operation.\<close>

datatype run_result = Exited int "string list" | Undefined error

definition initial_parser_state :: "Token list \<Rightarrow> parser_state" where
  "initial_parser_state tokens =
     \<lparr>lexer = tokens, runTask2 = False, runTask3 = False, runTask4 = False, runTask5 = False,
      poly_declarations = Map.empty, polyExprs = Map.empty, poly_decl_first_line = [],
      duplicate_decl_lines = [], invalid_monomial_lines = [], semantic_errors = [],
      used_polynomials = {}, current_poly_params = [], in_poly_decl = False,
      execStatements = [], execInputs = []\<rparr>"

text \<open>The tasks of \<^verbatim>\<open>main\<close> after the semantic check, in their fixed order.\<close>

definition run_tasks :: "nat \<Rightarrow> parser_state \<Rightarrow> run_result" where
  "run_tasks fuel s =
     (case (if runTask2 s then execute_program fuel s (execStatements s) initial_exec_state
            else Inr initial_exec_state) of
        Inl e \<Rightarrow> Undefined e
      | Inr st \<Rightarrow>
          Exited 0
            (stdout st
             @ (if runTask3 s then checkUninitializedWarnings (execStatements s) else [])
             @ (if runTask4 s then checkUselessAssignments (execStatements s) else [])
             @ (if runTask5 s then outputPolynomialDegrees (poly_decl_first_line s) (polyExprs s)
                else [])))"

definition main :: "nat \<Rightarrow> Token list \<Rightarrow> run_result" where
  "main fuel tokens =
     (case ConsumeAllInput (initial_parser_state tokens) of
        Inl e \<Rightarrow> Exited 1 [''SYNTAX ERROR !!!!!&%!!'']
      | Inr s \<Rightarrow>
          (case check_semantic_errors s of
             Inl e \<Rightarrow> Undefined e
           | Inr (Some out) \<Rightarrow> Exited 0 out
           | Inr None \<Rightarrow> run_tasks fuel s))"

section \<open>Printing and reading numbers\<close>

lemma digits_of_small: "n < 10 \<Longrightarrow> digits_of n = [digit_char n]"
  by (simp add: digits_of.simps)

lemma is_digit_digit_char: "d < 10 \<Longrightarrow> is_digit (digit_char d)"
  by (simp add: is_digit_def digit_char_def)

lemma digit_val_digit_char: "d < 10 \<Longrightarrow> digit_val (digit_char d) = d"
  by (simp add: digit_val_def digit_char_def)

lemma digits_of_all_digits: "list_all is_digit (digits_of n)"
  by (induction n rule: digits_of.induct) (subst digits_of.simps, simp add: is_digit_digit_char)

lemma digits_of_not_Nil: "digits_of n \<noteq> []"
  by (subst digits_of.simps) simp

lemma read_digits_snoc:
  "list_all is_digit ds \<Longrightarrow> is_digit c \<Longrightarrow> read_digits acc (ds @ [c]) = read_digits acc ds * 10 + digit_val c"
proof (induction ds arbitrary: acc)
  case Nil
  then show ?case by simp
next
  case (Cons d ds)
  from Cons.prems have d: "is_digit d" "list_all is_digit ds" by simp_all
  have "read_digits acc ((d # ds) @ [c]) = read_digits (acc * 10 + digit_val d) (ds @ [c])"
    using d(1) by simp
  also have "\<dots> = read_digits (acc * 10 + digit_val d) ds * 10 + digit_val c"
    by (rule Cons.IH [OF d(2) Cons.prems(2)])
  also have "\<dots> = read_digits acc (d # ds) * 10 + digit_val c"
    using d(1) by simp
  finally show ?case .
qed

lemma read_digits_digits_of: "read_digits 0 (digits_of n) = n"
proof (induction n rule: digits_of.induct)
  case (1 n)
  show ?case
  proof (cases "n < 10")
    case True
    then show ?thesis
      by (simp add: digits_of_small is_digit_digit_char digit_val_digit_char)
  next
    case False
    then have "digits_of n = digits_of (n div 10) @ [digit_char (n mod 10)]"
      by (subst digits_of.simps) simp
    then show ?thesis
      using 1 [OF False]
      by (simp add: read_digits_snoc digits_of_all_digits is_digit_digit_char digit_val_digit_char)
  qed
qed

lemma is_digit_cases:
  assumes "is_digit c"
  shows "c \<noteq> CHR ''-'' \<and> c \<noteq> CHR ''+'' \<and> \<not> is_space c"
proof -
  have n: "\<not> is_digit CHR ''-''" "\<not> is_digit CHR ''+''" "\<not> is_digit CHR '' ''"
    by (simp_all add: is_digit_def)
  have "\<not> is_space c"
  proof
    assume "is_space c"
    then consider "c = CHR '' ''" | "9 \<le> (of_char c :: nat)" "(of_char c :: nat) \<le> 13"
      unfolding is_space_def by blast
    then show False
    proof cases
      case 1
      with assms n(3) show False by simp
    next
      case 2
      with assms show False unfolding is_digit_def by linarith
    qed
  qed
  with assms n show ?thesis by blast
qed

lemma digits_of_hd: "\<exists>c cs. digits_of n = c # cs \<and> is_digit c"
  using digits_of_all_digits [of n] digits_of_not_Nil [of n] by (cases "digits_of n") auto

lemma read_signed_to_string: "read_signed (to_string i) = i"
proof (cases "i < 0")
  case True
  then show ?thesis by (simp add: to_string_def read_signed_def read_digits_digits_of)
next
  case False
  obtain c cs where d: "digits_of (nat i) = c # cs" "is_digit c" using digits_of_hd by blast
  have "read_digits 0 (c # cs) = nat i" using read_digits_digits_of [of "nat i"] d(1) by simp
  then show ?thesis
    using False d is_digit_cases [OF d(2)]
    by (simp add: to_string_def read_signed_def del: read_digits.simps)
qed

lemma has_digits_to_string: "has_digits (to_string i)"
proof (cases "i < 0")
  case True
  obtain c cs where d: "digits_of (nat (- i)) = c # cs" "is_digit c" using digits_of_hd by blast
  with True show ?thesis by (simp add: to_string_def has_digits_def)
next
  case False
  obtain c cs where d: "digits_of (nat i) = c # cs" "is_digit c" using digits_of_hd by blast
  with False is_digit_cases [OF d(2)] show ?thesis by (simp add: to_string_def has_digits_def)
qed

lemma to_string_no_space: "dropWhile is_space (to_string i) = to_string i"
proof (cases "i < 0")
  case True
  have "\<not> is_space CHR ''-''" by (simp add: is_space_def)
  with True show ?thesis by (simp add: to_string_def)
next
  case False
  obtain c cs where d: "digits_of (nat i) = c # cs" "is_digit c" using digits_of_hd by blast
  show ?thesis
    using False d is_digit_cases [OF d(2)] by (simp add: to_string_def)
qed

lemma is_space_blank: "is_space CHR '' ''"
  by (simp add: is_space_def)

lemma stoi_blank_to_string: "stoi ('' '' @ to_string i) = Some i"
  by (simp add: stoi_def Let_def is_space_blank to_string_no_space
      has_digits_to_string read_signed_to_string)

section \<open>Call findings as text\<close>

lemma after_colon_undeclared: "after_colon (undeclared_error ln) = Some ('' '' @ to_string ln)"
  by (simp add: after_colon_def undeclared_error_def)

lemma after_colon_arity: "after_colon (arity_error ln) = Some ('' '' @ to_string ln)"
  by (simp add: after_colon_def arity_error_def)

lemma starts_with_undeclared:
  "starts_with (undeclared_error ln) ''Semantic Error Code 3:''"
  "\<not> starts_with (undeclared_error ln) ''Semantic Error Code 4:''"
  by (simp_all add: starts_with_def undeclared_error_def)

lemma starts_with_arity:
  "starts_with (arity_error ln) ''Semantic Error Code 4:''"
  "\<not> starts_with (arity_error ln) ''Semantic Error Code 3:''"
  by (simp_all add: starts_with_def arity_error_def)

text \<open>A call finding as a value: its class and its line.\<close>

datatype call_finding = Undeclared int | ArityMismatch int

fun finding_line :: "call_finding \<Rightarrow> int" where
  "finding_line (Undeclared ln) = ln"
| "finding_line (ArityMismatch ln) = ln"

fun finding_text :: "call_finding \<Rightarrow> string" where
  "finding_text (Undeclared ln) = undeclared_error ln"
| "finding_text (ArityMismatch ln) = arity_error ln"

lemma collect_lines_findings:
  "collect_lines (map finding_text fs) acc = Inr (acc @ map finding_line fs)"
proof (induction fs arbitrary: acc)
  case Nil
  show ?case by simp
next
  case (Cons f fs)
  show ?case
    by (cases f) (simp_all add: after_colon_undeclared after_colon_arity stoi_blank_to_string Cons
        del: append.simps)
qed

section \<open>The degree analysis\<close>

lemma sint_int_max: "sint (int_max a b) = max (sint a) (sint b)"
  by (auto simp: int_max_def word_sless_alt max_def)

lemma sorted_map_fst_lex:
  fixes ps :: "(int \<times> string) list"
  shows "sorted ps \<Longrightarrow> sorted (map fst ps)"
  by (induction ps) (auto simp: less_eq_prod_def)

lemma polyOrder_sorted: "sorted (map fst (polyOrder first_line))"
  by (simp add: polyOrder_def sorted_map_fst_lex)

lemma polyOrder_names: "mset (map snd (polyOrder first_line)) = mset (map fst first_line)"
proof -
  have "mset (map snd (polyOrder first_line)) = image_mset snd (mset (polyOrder first_line))"
    by simp
  also have "\<dots> = image_mset snd (mset (map (\<lambda>entry. (snd entry, fst entry)) first_line))"
    by (simp add: polyOrder_def)
  also have "\<dots> = mset (map fst first_line)"
    by (simp add: image_mset.compositionality comp_def)
  finally show ?thesis .
qed

lemma polyOrder_entries: "mset (polyOrder first_line) = mset (map prod.swap first_line)"
proof -
  have "(\<lambda>entry :: string \<times> int. (snd entry, fst entry)) = prod.swap"
    by (auto simp: fun_eq_iff)
  then show ?thesis by (simp add: polyOrder_def)
qed

lemma polyOrder_sorted_entries: "sorted (polyOrder first_line)"
  by (simp add: polyOrder_def)

lemma polyOrder_unique:
  assumes "mset order = mset (map prod.swap first_line)" and "sorted order"
  shows "order = polyOrder first_line"
proof -
  have "mset order = mset (polyOrder first_line)" using assms(1) by (simp add: polyOrder_entries)
  then show ?thesis
    using assms(2) polyOrder_sorted_entries [of first_line]
    by (metis sorted_sort_id properties_for_sort)
qed

text \<open>
  Claim C5. The degree function gives 0 for a constant, 1 for a variable, the (signed)
  maximum of the children's degrees for a sum and for a difference, the sum of the
  children's degrees for a product, the degree of the base times the exponent for a
  power, and 0 for a call whatever the callee is. The degree report has one line per
  entry of the table of first declaration lines: the entries, each a name with its own
  first declaration line, are put in the order of their lines (of their names, for
  entries of one line), which fixes the order, and the line printed for an entry is its
  name, a colon and a blank, and the degree of the stored body of that name in decimal.
\<close>

theorem degree_rules_and_report:
  "computeDegree (ConstExpr v) = 0 \<and>
   computeDegree (VarExpr x ln) = 1 \<and>
   sint (computeDegree (AddExpr l r)) = max (sint (computeDegree l)) (sint (computeDegree r)) \<and>
   sint (computeDegree (SubExpr l r)) = max (sint (computeDegree l)) (sint (computeDegree r)) \<and>
   computeDegree (MulExpr l r) = computeDegree l + computeDegree r \<and>
   computeDegree (PowExpr b e) = computeDegree b * e \<and>
   computeDegree (CallExpr f args) = 0 \<and>
   outputPolynomialDegrees first_line bodies =
     map (\<lambda>p. snd p @ '': '' @ to_string (sint (degree_of_body bodies (snd p)))) (polyOrder first_line) \<and>
   length (outputPolynomialDegrees first_line bodies) = length first_line \<and>
   mset (map snd (polyOrder first_line)) = mset (map fst first_line) \<and>
   sorted (map fst (polyOrder first_line)) \<and>
   degree_of_body (bodies(f \<mapsto> l)) f = computeDegree l \<and>
   mset (polyOrder first_line) = mset (map prod.swap first_line) \<and>
   sorted (polyOrder first_line) \<and>
   (mset order = mset (map prod.swap first_line) \<and> sorted order \<longrightarrow>
      outputPolynomialDegrees first_line bodies =
        map (\<lambda>p. snd p @ '': '' @ to_string (sint (degree_of_body bodies (snd p)))) order) \<and>
   outputPolynomialDegrees [(''g'', 7), (''f'', 3), (''h'', 12)]
     [''f'' \<mapsto> MulExpr (AddExpr (VarExpr ''x'' 3) (ConstExpr 1)) (SubExpr (VarExpr ''x'' 3) (ConstExpr 1)),
      ''g'' \<mapsto> PowExpr (VarExpr ''x'' 7) 3, ''h'' \<mapsto> ConstExpr 2] =
     [''f: 2'', ''g: 3'', ''h: 0'']"
proof -
  have len: "length (outputPolynomialDegrees first_line bodies) = length first_line"
    by (simp add: outputPolynomialDegrees_def polyOrder_def)
  have uniq: "mset order = mset (map prod.swap first_line) \<and> sorted order \<longrightarrow>
      outputPolynomialDegrees first_line bodies =
        map (\<lambda>p. snd p @ '': '' @ to_string (sint (degree_of_body bodies (snd p)))) order"
    using polyOrder_unique [of order first_line] by (auto simp: outputPolynomialDegrees_def)
  have ex: "outputPolynomialDegrees [(''g'', 7), (''f'', 3), (''h'', 12)]
     [''f'' \<mapsto> MulExpr (AddExpr (VarExpr ''x'' 3) (ConstExpr 1)) (SubExpr (VarExpr ''x'' 3) (ConstExpr 1)),
      ''g'' \<mapsto> PowExpr (VarExpr ''x'' 7) 3, ''h'' \<mapsto> ConstExpr 2] =
     [''f: 2'', ''g: 3'', ''h: 0'']"
    by code_simp
  show ?thesis
    by (intro conjI len polyOrder_names polyOrder_sorted polyOrder_entries polyOrder_sorted_entries
        uniq ex)
      (simp_all add: sint_int_max outputPolynomialDegrees_def degree_of_body_def)
qed

text \<open>
  The table with \<open>g\<close> first declared on line 7, \<open>f\<close> on line 3 and \<open>h\<close> on line 12, and the
  bodies \<open>(x + 1) (x - 1)\<close>, \<open>x^3\<close> and \<open>2\<close>.
\<close>

theorem degree_rules_and_report_witness:
  "mset [(3, ''f''), (7, ''g''), (12, ''h'')] =
     mset (map prod.swap [(''g'', 7), (''f'', 3), (''h'', 12 :: int)]) \<and>
   sorted [(3 :: int, ''f''), (7, ''g''), (12, ''h'')] \<and>
   outputPolynomialDegrees [(''g'', 7), (''f'', 3), (''h'', 12)]
     [''f'' \<mapsto> MulExpr (AddExpr (VarExpr ''x'' 3) (ConstExpr 1)) (SubExpr (VarExpr ''x'' 3) (ConstExpr 1)),
      ''g'' \<mapsto> PowExpr (VarExpr ''x'' 7) 3, ''h'' \<mapsto> ConstExpr 2] =
     map (\<lambda>p. snd p @ '': '' @ to_string (sint (degree_of_body
       [''f'' \<mapsto> MulExpr (AddExpr (VarExpr ''x'' 3) (ConstExpr 1)) (SubExpr (VarExpr ''x'' 3) (ConstExpr 1)),
        ''g'' \<mapsto> PowExpr (VarExpr ''x'' 7) 3, ''h'' \<mapsto> ConstExpr 2] (snd p))))
       [(3 :: int, ''f''), (7, ''g''), (12, ''h'')]"
proof -
  let ?fl = "[(''g'', 7), (''f'', 3), (''h'', 12 :: int)]"
  let ?order = "[(3 :: int, ''f''), (7, ''g''), (12, ''h'')]"
  let ?bodies = "[''f'' \<mapsto> MulExpr (AddExpr (VarExpr ''x'' 3) (ConstExpr 1))
        (SubExpr (VarExpr ''x'' 3) (ConstExpr 1)),
      ''g'' \<mapsto> PowExpr (VarExpr ''x'' 7) 3, ''h'' \<mapsto> ConstExpr 2]"
  have m: "mset ?order = mset (map prod.swap ?fl)" by simp
  have s: "sorted ?order" by (simp add: less_eq_prod_def)
  from degree_rules_and_report [where order = ?order and first_line = ?fl and bodies = ?bodies] m s
  have "outputPolynomialDegrees ?fl ?bodies =
      map (\<lambda>p. snd p @ '': '' @ to_string (sint (degree_of_body ?bodies (snd p)))) ?order"
    by blast
  with m s show ?thesis by (intro conjI)
qed

section \<open>The semantic error check: results\<close>

text \<open>
  Three programs. In the first the script calls the undeclared \<open>g\<close> on line 5 and the
  declared \<open>f\<close> with two arguments instead of one on line 6; the second has the two calls
  in the other order; in the third the body of \<open>f\<close> names \<open>y\<close> and \<open>z\<close>, which are not
  parameters, both on line 3.
\<close>

definition undeclared_then_arity_program :: "Token list" where
  "undeclared_then_arity_program =
    [Token TASKS ''TASKS'' 1, Token NUM ''2'' 1,
     Token POLY ''POLY'' 2,
     Token ID ''f'' 3, Token EQUAL ''='' 3, Token ID ''x'' 3, Token SEMICOLON '';'' 3,
     Token EXECUTE ''EXECUTE'' 4,
     Token ID ''a'' 5, Token EQUAL ''='' 5, Token ID ''g'' 5, Token LPAREN ''('' 5,
       Token NUM ''1'' 5, Token RPAREN '')'' 5, Token SEMICOLON '';'' 5,
     Token ID ''b'' 6, Token EQUAL ''='' 6, Token ID ''f'' 6, Token LPAREN ''('' 6,
       Token NUM ''1'' 6, Token COMMA '','' 6, Token NUM ''2'' 6, Token RPAREN '')'' 6,
       Token SEMICOLON '';'' 6,
     Token INPUTS ''INPUTS'' 7, Token NUM ''1'' 7]"

definition arity_then_undeclared_program :: "Token list" where
  "arity_then_undeclared_program =
    [Token TASKS ''TASKS'' 1, Token NUM ''2'' 1,
     Token POLY ''POLY'' 2,
     Token ID ''f'' 3, Token EQUAL ''='' 3, Token ID ''x'' 3, Token SEMICOLON '';'' 3,
     Token EXECUTE ''EXECUTE'' 4,
     Token ID ''b'' 5, Token EQUAL ''='' 5, Token ID ''f'' 5, Token LPAREN ''('' 5,
       Token NUM ''1'' 5, Token COMMA '','' 5, Token NUM ''2'' 5, Token RPAREN '')'' 5,
       Token SEMICOLON '';'' 5,
     Token ID ''a'' 6, Token EQUAL ''='' 6, Token ID ''g'' 6, Token LPAREN ''('' 6,
       Token NUM ''1'' 6, Token RPAREN '')'' 6, Token SEMICOLON '';'' 6,
     Token INPUTS ''INPUTS'' 7, Token NUM ''1'' 7]"

definition two_monomials_program :: "Token list" where
  "two_monomials_program =
    [Token TASKS ''TASKS'' 1, Token NUM ''2'' 1,
     Token POLY ''POLY'' 2,
     Token ID ''f'' 3, Token EQUAL ''='' 3, Token ID ''y'' 3, Token PLUS ''+'' 3, Token ID ''z'' 3,
       Token SEMICOLON '';'' 3,
     Token EXECUTE ''EXECUTE'' 4,
     Token INPUT ''INPUT'' 5, Token ID ''a'' 5, Token SEMICOLON '';'' 5,
     Token INPUTS ''INPUTS'' 6, Token NUM ''1'' 6]"

text \<open>
  Claim C1 (the code departs from it). The claim: the four classes are reported in a
  fixed order of priority, and when undeclared calls and arity mismatches both exist,
  exactly the lines of the undeclared calls are reported. The check looks at the first
  recorded call finding only: its class gives the label, and the lines of all call
  findings, of both classes, are printed under it. The first program prints the line of
  the arity mismatch (6) under the label of the undeclared calls; the second prints
  both lines under the label of the arity mismatches, although an undeclared call exists.
\<close>

theorem call_findings_mixed:
  "main 1 undeclared_then_arity_program = Exited 0 [report_line ''Semantic Error Code 3:'' [5, 6]] \<and>
   main 1 arity_then_undeclared_program = Exited 0 [report_line ''Semantic Error Code 4:'' [5, 6]]"
  by code_simp

text \<open>
  Claim C4, as stated: the line numbers of the reported class are deduplicated, so no
  number appears twice in the reported line. The third program has two findings of
  class 2 on line 3, and the line 3 is printed twice.
\<close>

theorem repeated_line_counterexample:
  "main 1 two_monomials_program = Exited 0 [report_line ''Semantic Error Code 2:'' [3, 3]] \<and>
   \<not> distinct [3 :: int, 3] \<and>
   main 1 two_monomials_program = Exited 0 [''Semantic Error Code 2: 3 3'']"
  by code_simp

lemma sort_keeps_findings: "mset (sort (lines :: int list)) = mset lines \<and> sorted (sort lines)"
  by simp

text \<open>
  Claim C4, amended. The check sorts the line numbers of the reported class and prints
  all of them, duplicates included: the reported line is the label followed, for every
  recorded line in ascending order, by a blank and the number in decimal, so a line
  number is printed as often as a finding of the class was recorded on that line. For
  the classes 1 and 2 this holds of every state; for the call findings it is stated
  for the states in which all the call findings recorded are of one class, the class 3
  or the class 4.
\<close>

theorem check_semantic_errors_reports_every_finding:
  "(duplicate_decl_lines s \<noteq> [] \<longrightarrow>
      check_semantic_errors s =
        Inr (Some [report_line ''Semantic Error Code 1:'' (sort (duplicate_decl_lines s))])) \<and>
   (duplicate_decl_lines s = [] \<and> invalid_monomial_lines s \<noteq> [] \<longrightarrow>
      check_semantic_errors s =
        Inr (Some [report_line ''Semantic Error Code 2:'' (sort (invalid_monomial_lines s))])) \<and>
   (duplicate_decl_lines s = [] \<and> invalid_monomial_lines s = [] \<and> lines \<noteq> [] \<and>
    semantic_errors s = map undeclared_error lines \<longrightarrow>
      check_semantic_errors s = Inr (Some [report_line ''Semantic Error Code 3:'' (sort lines)])) \<and>
   (duplicate_decl_lines s = [] \<and> invalid_monomial_lines s = [] \<and> lines \<noteq> [] \<and>
    semantic_errors s = map arity_error lines \<longrightarrow>
      check_semantic_errors s = Inr (Some [report_line ''Semantic Error Code 4:'' (sort lines)])) \<and>
   (duplicate_decl_lines s = [] \<and> invalid_monomial_lines s = [] \<and> semantic_errors s = [] \<longrightarrow>
      check_semantic_errors s = Inr None) \<and>
   mset (sort lines) = mset lines \<and> sorted (sort lines) \<and>
   report_line label lines = label @ concat (map (\<lambda>n. '' '' @ to_string n) lines) \<and>
   count_list (sort lines) n = count_list lines n \<and>
   read_signed (to_string n) = n"
proof -
  have cu: "collect_lines (map undeclared_error lines) [] = Inr lines"
    using collect_lines_findings [of "map Undeclared lines" "[]"] by (simp add: comp_def)
  have ca: "collect_lines (map arity_error lines) [] = Inr lines"
    using collect_lines_findings [of "map ArityMismatch lines" "[]"] by (simp add: comp_def)
  have c3: "check_semantic_errors s = Inr (Some [report_line ''Semantic Error Code 3:'' (sort lines)])"
    if "lines \<noteq> []" "semantic_errors s = map undeclared_error lines"
      "duplicate_decl_lines s = []" "invalid_monomial_lines s = []"
    using that by (simp add: check_semantic_errors_def cu hd_map starts_with_undeclared)
  have c4: "check_semantic_errors s = Inr (Some [report_line ''Semantic Error Code 4:'' (sort lines)])"
    if "lines \<noteq> []" "semantic_errors s = map arity_error lines"
      "duplicate_decl_lines s = []" "invalid_monomial_lines s = []"
    using that by (simp add: check_semantic_errors_def ca hd_map starts_with_arity)
  have c12: "duplicate_decl_lines s \<noteq> [] \<longrightarrow>
      check_semantic_errors s =
        Inr (Some [report_line ''Semantic Error Code 1:'' (sort (duplicate_decl_lines s))])"
    "duplicate_decl_lines s = [] \<and> invalid_monomial_lines s \<noteq> [] \<longrightarrow>
      check_semantic_errors s =
        Inr (Some [report_line ''Semantic Error Code 2:'' (sort (invalid_monomial_lines s))])"
    "duplicate_decl_lines s = [] \<and> invalid_monomial_lines s = [] \<and> semantic_errors s = [] \<longrightarrow>
      check_semantic_errors s = Inr None"
    by (simp_all add: check_semantic_errors_def)
  have "count (mset (sort lines)) n = count (mset lines) n" by simp
  then have cnt: "count_list (sort lines) n = count_list lines n"
    by (simp only: count_mset)
  have rl: "report_line label lines = label @ concat (map (\<lambda>n. '' '' @ to_string n) lines)"
    by (simp add: report_line_def)
  show ?thesis
    using c3 c4 c12 by (intro conjI impI cnt rl read_signed_to_string) simp_all
qed

text \<open>
  States with the lines 3, 1, 3 in class 1, with 4, 4 in class 2, with undeclared calls on
  the lines 7, 15, 7, and with arity mismatches on the lines 2, 2.
\<close>

theorem check_semantic_errors_reports_every_finding_witness:
  "check_semantic_errors ((initial_parser_state [])\<lparr>duplicate_decl_lines := [3, 1, 3]\<rparr>) =
     Inr (Some [report_line ''Semantic Error Code 1:'' [1, 3, 3]]) \<and>
   check_semantic_errors ((initial_parser_state [])\<lparr>invalid_monomial_lines := [4, 4]\<rparr>) =
     Inr (Some [report_line ''Semantic Error Code 2:'' [4, 4]]) \<and>
   check_semantic_errors
     ((initial_parser_state [])\<lparr>semantic_errors := map undeclared_error [7, 15, 7]\<rparr>) =
     Inr (Some [report_line ''Semantic Error Code 3:'' [7, 7, 15]]) \<and>
   check_semantic_errors
     ((initial_parser_state [])\<lparr>semantic_errors := map arity_error [2, 2]\<rparr>) =
     Inr (Some [report_line ''Semantic Error Code 4:'' [2, 2]]) \<and>
   check_semantic_errors (initial_parser_state []) = Inr None \<and>
   report_line ''Semantic Error Code 1:'' [1, 3, 3] = ''Semantic Error Code 1: 1 3 3'' \<and>
   report_line ''Semantic Error Code 2:'' [4, 4] = ''Semantic Error Code 2: 4 4'' \<and>
   report_line ''Semantic Error Code 3:'' [7, 7, 15] = ''Semantic Error Code 3: 7 7 15'' \<and>
   report_line ''Semantic Error Code 4:'' [2, 2] = ''Semantic Error Code 4: 2 2''"
proof -
  have t: "to_string 1 = ''1''" "to_string 2 = ''2''" "to_string 3 = ''3''" "to_string 4 = ''4''"
    "to_string 7 = ''7''" "to_string 15 = ''15''"
    by code_simp+
  have r: "report_line ''Semantic Error Code 1:'' [1, 3, 3] = ''Semantic Error Code 1: 1 3 3''"
    "report_line ''Semantic Error Code 2:'' [4, 4] = ''Semantic Error Code 2: 4 4''"
    "report_line ''Semantic Error Code 3:'' [7, 7, 15] = ''Semantic Error Code 3: 7 7 15''"
    "report_line ''Semantic Error Code 4:'' [2, 2] = ''Semantic Error Code 4: 2 2''"
    using check_semantic_errors_reports_every_finding
      [of "initial_parser_state []" "[1, 3, 3]" "''Semantic Error Code 1:''"]
      check_semantic_errors_reports_every_finding
      [of "initial_parser_state []" "[4, 4]" "''Semantic Error Code 2:''"]
      check_semantic_errors_reports_every_finding
      [of "initial_parser_state []" "[7, 7, 15]" "''Semantic Error Code 3:''"]
      check_semantic_errors_reports_every_finding
      [of "initial_parser_state []" "[2, 2]" "''Semantic Error Code 4:''"]
    by (simp_all add: t)
  have c: "check_semantic_errors ((initial_parser_state [])\<lparr>duplicate_decl_lines := [3, 1, 3]\<rparr>) =
     Inr (Some [report_line ''Semantic Error Code 1:'' [1, 3, 3]])"
    "check_semantic_errors ((initial_parser_state [])\<lparr>invalid_monomial_lines := [4, 4]\<rparr>) =
     Inr (Some [report_line ''Semantic Error Code 2:'' [4, 4]])"
    "check_semantic_errors
     ((initial_parser_state [])\<lparr>semantic_errors := map undeclared_error [7, 15, 7]\<rparr>) =
     Inr (Some [report_line ''Semantic Error Code 3:'' [7, 7, 15]])"
    "check_semantic_errors
     ((initial_parser_state [])\<lparr>semantic_errors := map arity_error [2, 2]\<rparr>) =
     Inr (Some [report_line ''Semantic Error Code 4:'' [2, 2]])"
    "check_semantic_errors (initial_parser_state []) = Inr None"
    using
      check_semantic_errors_reports_every_finding
        [of "(initial_parser_state [])\<lparr>duplicate_decl_lines := [3, 1, 3]\<rparr>" "[]"]
      check_semantic_errors_reports_every_finding
        [of "(initial_parser_state [])\<lparr>invalid_monomial_lines := [4, 4]\<rparr>" "[]"]
      check_semantic_errors_reports_every_finding
        [of "(initial_parser_state [])\<lparr>semantic_errors := map undeclared_error [7, 15, 7]\<rparr>" "[7, 15, 7]"]
      check_semantic_errors_reports_every_finding
        [of "(initial_parser_state [])\<lparr>semantic_errors := map arity_error [2, 2]\<rparr>" "[2, 2]"]
      check_semantic_errors_reports_every_finding [of "initial_parser_state []" "[]"]
    by (simp_all add: initial_parser_state_def)
  from c r show ?thesis by (intro conjI)
qed

section \<open>The arguments of a call\<close>
























lemma lexer_record_call_finding [simp]: "lexer (record_call_finding f n ln s) = lexer s"
  by (simp add: record_call_finding_def split: option.splits)
























section \<open>What a declaration stores\<close>

text \<open>
  The state after a declaration that parses: the header \<open>h\<close>, the tokens \<open>ch\<close> of the header
  and \<open>cb\<close> of the body, and the stored body. The parameter list of the header is written
  to \<^verbatim>\<open>poly_declarations\<close> in every case; the body and the first line are stored only for
  a name that has no first line yet, and otherwise the line is added to the duplicates.
\<close>

lemma parse_poly_decl_effect:
  assumes "parse_poly_decl s = Inr s'"
  shows "\<exists>h s1 ch teq cb tsemi body.
     parse_poly_header s = Inr (h, s1) \<and>
     lexer s = ch @ [teq] @ cb @ [tsemi] @ lexer s' \<and>
     lexer s1 = [teq] @ cb @ [tsemi] @ lexer s' \<and>
     s' = s\<lparr>lexer := lexer s',
            poly_declarations := (poly_declarations s)(name h \<mapsto> params h),
            current_poly_params := params h,
            in_poly_decl := False,
            invalid_monomial_lines := invalid_monomial_lines s @ bad_ids (params h) cb,
            duplicate_decl_lines :=
              (if map_of (poly_decl_first_line s) (name h) \<noteq> None
               then duplicate_decl_lines s @ [line h] else duplicate_decl_lines s),
            poly_decl_first_line :=
              (if map_of (poly_decl_first_line s) (name h) \<noteq> None
               then poly_decl_first_line s else poly_decl_first_line s @ [(name h, line h)]),
            polyExprs :=
              (if map_of (poly_decl_first_line s) (name h) \<noteq> None
               then polyExprs s else (polyExprs s)(name h \<mapsto> body))\<rparr>"
proof -
  from assms obtain h s1 teq s2 body s3 tsemi s4 where
    a: "parse_poly_header s = Inr (h, s1)" and b: "expect EQUAL s1 = Inr (teq, s2)"
    and c: "parse_poly_body_expr (s2\<lparr>current_poly_params := params h, in_poly_decl := True\<rparr>) = Inr (body, s3)"
    and d: "expect SEMICOLON (s3\<lparr>in_poly_decl := False\<rparr>) = Inr (tsemi, s4)"
    and e: "s' = (if map_of (poly_decl_first_line s4) (name h) \<noteq> None
                 then s4\<lparr>duplicate_decl_lines := duplicate_decl_lines s4 @ [line h]\<rparr>
                 else s4\<lparr>poly_decl_first_line := poly_decl_first_line s4 @ [(name h, line h)],
                         polyExprs := (polyExprs s4)(name h \<mapsto> body)\<rparr>)"
    by (auto simp: parse_poly_decl_def bind_Inr split: if_splits)
  from parse_poly_header_step [OF a] obtain ch where
    h: "lexer s = ch @ lexer s1"
       "s1 = s\<lparr>lexer := lexer s1, poly_declarations := (poly_declarations s)(name h \<mapsto> params h)\<rparr>"
    by blast
  from expect_lexer_step [OF b] have q: "lexer s1 = [teq] @ lexer s2" "s2 = s1\<lparr>lexer := lexer s2\<rparr>"
    by (simp_all add: lexer_step_def)
  from poly_parsers_step(1) [OF c] obtain cb where
    p: "poly_step (s2\<lparr>current_poly_params := params h, in_poly_decl := True\<rparr>) s3 cb"
    by blast
  then have p1: "lexer s2 = cb @ lexer s3"
    and p2: "s3 = s2\<lparr>current_poly_params := params h, in_poly_decl := True,
                     lexer := lexer s3,
                     invalid_monomial_lines := invalid_monomial_lines s2 @ bad_ids (params h) cb\<rparr>"
    by (simp_all add: poly_step_def)
  from expect_lexer_step [OF d] have
    r: "lexer s3 = [tsemi] @ lexer s4" "s4 = s3\<lparr>in_poly_decl := False, lexer := lexer s4\<rparr>"
    by (simp_all add: lexer_step_def)
  have l': "lexer s' = lexer s4" using e by simp
  have f4: "poly_decl_first_line s4 = poly_decl_first_line s"
    using h(2) q(2) p2 r(2) by (cases s; cases s1; cases s2; cases s3; cases s4) simp
  have s4: "s4 = s\<lparr>lexer := lexer s4,
            poly_declarations := (poly_declarations s)(name h \<mapsto> params h),
            current_poly_params := params h,
            in_poly_decl := False,
            invalid_monomial_lines := invalid_monomial_lines s @ bad_ids (params h) cb\<rparr>"
    using h(2) q(2) p2 r(2) by (cases s; cases s1; cases s2; cases s3; cases s4) simp
  have 1: "lexer s = ch @ [teq] @ cb @ [tsemi] @ lexer s'"
    using h(1) q(1) p1 r(1) l' by simp
  have 2: "lexer s1 = [teq] @ cb @ [tsemi] @ lexer s'"
    using q(1) p1 r(1) l' by simp
  have 3: "s' = s\<lparr>lexer := lexer s',
            poly_declarations := (poly_declarations s)(name h \<mapsto> params h),
            current_poly_params := params h,
            in_poly_decl := False,
            invalid_monomial_lines := invalid_monomial_lines s @ bad_ids (params h) cb,
            duplicate_decl_lines :=
              (if map_of (poly_decl_first_line s) (name h) \<noteq> None
               then duplicate_decl_lines s @ [line h] else duplicate_decl_lines s),
            poly_decl_first_line :=
              (if map_of (poly_decl_first_line s) (name h) \<noteq> None
               then poly_decl_first_line s else poly_decl_first_line s @ [(name h, line h)]),
            polyExprs :=
              (if map_of (poly_decl_first_line s) (name h) \<noteq> None
               then polyExprs s else (polyExprs s)(name h \<mapsto> body))\<rparr>"
    unfolding e f4 using s4 by (cases s; cases s4) (simp split: if_splits)
  from a 1 2 3 show ?thesis by blast
qed

lemma expect_peek:
  "expect ty s = Inr (t, s1) \<Longrightarrow> ty \<noteq> END_OF_FILE \<Longrightarrow> t = peek 1 s \<and> peek 1 s1 = peek 2 s"
  by (auto simp: expect_def peek_def lexer_peek_def lexer_GetToken_def eof_token_def
      split: list.splits if_splits)

lemma parse_poly_header_default:
  assumes "parse_poly_header s = Inr (h, s1)" and "token_type (peek 2 s) \<noteq> LPAREN"
  shows "h = \<lparr>name = lexeme (peek 1 s), line = line_no (peek 1 s), params = [''x'']\<rparr> \<and>
         lexer s = [peek 1 s] @ lexer s1"
proof -
  from assms(1) obtain t s0 where a: "expect ID s = Inr (t, s0)"
    by (auto simp: parse_poly_header_def bind_Inr)
  from expect_peek [OF a] assms(2) have p: "t = peek 1 s" "token_type (peek 1 s0) \<noteq> LPAREN"
    by simp_all
  from assms(1) a p(2) have
    "h = \<lparr>name = lexeme t, line = line_no t, params = [''x'']\<rparr>" "lexer s1 = lexer s0"
    by (auto simp: parse_poly_header_def Let_def)
  with expect_consumes [OF a] p(1) show ?thesis by simp
qed

text \<open>
  The second declaration of a name: its line goes to the duplicates, the stored body and
  the first line stay, and the parameter list of the second header replaces the stored
  one.
\<close>

lemma duplicate_declaration_effect:
  assumes "parse_poly_decl s = Inr s'" and "parse_poly_header s = Inr (h, s1)"
    and "map_of (poly_decl_first_line s) (name h) \<noteq> None"
  shows "polyExprs s' = polyExprs s \<and> poly_decl_first_line s' = poly_decl_first_line s \<and>
         duplicate_decl_lines s' = duplicate_decl_lines s @ [line h] \<and>
         poly_declarations s' = (poly_declarations s)(name h \<mapsto> params h)"
proof -
  from parse_poly_decl_effect [OF assms(1)] assms(2) obtain cb body where
    "s' = s\<lparr>lexer := lexer s',
            poly_declarations := (poly_declarations s)(name h \<mapsto> params h),
            current_poly_params := params h,
            in_poly_decl := False,
            invalid_monomial_lines := invalid_monomial_lines s @ bad_ids (params h) cb,
            duplicate_decl_lines :=
              (if map_of (poly_decl_first_line s) (name h) \<noteq> None
               then duplicate_decl_lines s @ [line h] else duplicate_decl_lines s),
            poly_decl_first_line :=
              (if map_of (poly_decl_first_line s) (name h) \<noteq> None
               then poly_decl_first_line s else poly_decl_first_line s @ [(name h, line h)]),
            polyExprs :=
              (if map_of (poly_decl_first_line s) (name h) \<noteq> None
               then polyExprs s else (polyExprs s)(name h \<mapsto> body))\<rparr>"
    by auto
  with assms(3) show ?thesis by (cases s; cases s') simp
qed

text \<open>The POLY section \<open>f(x) = x; f(x, y) = y;\<close>, the two declarations on lines 3 and 4.\<close>

definition redeclared_poly_section :: "Token list" where
  "redeclared_poly_section =
    [Token POLY ''POLY'' 2,
     Token ID ''f'' 3, Token LPAREN ''('' 3, Token ID ''x'' 3, Token RPAREN '')'' 3,
       Token EQUAL ''='' 3, Token ID ''x'' 3, Token SEMICOLON '';'' 3,
     Token ID ''f'' 4, Token LPAREN ''('' 4, Token ID ''x'' 4, Token COMMA '','' 4,
       Token ID ''y'' 4, Token RPAREN '')'' 4,
       Token EQUAL ''='' 4, Token ID ''y'' 4, Token SEMICOLON '';'' 4,
     Token EXECUTE ''EXECUTE'' 5]"

text \<open>
  Claim C2 (the code departs from it). The claim: the body, the parameter list and the
  first line of a name are fixed by its first declaration, and a second declaration
  only records its line. After the first declaration of the section above, \<open>f\<close> has the
  parameter list \<open>[x]\<close>; after the second one the stored body and first line are the
  first declaration's and line 4 is a duplicate, but the stored parameter list is
  \<open>[x, y]\<close>, the second declaration's: \<^verbatim>\<open>parse_poly_header\<close> writes it before the
  duplicate is detected.
\<close>

theorem second_declaration_overwrites_params:
  "(case parse_poly_section (initial_parser_state (take 8 redeclared_poly_section)) of
      Inl err \<Rightarrow> False
    | Inr s \<Rightarrow> poly_declarations s ''f'' = Some [''x''] \<and> polyExprs s ''f'' = Some (VarExpr ''x'' 3)) \<and>
   (case parse_poly_section (initial_parser_state redeclared_poly_section) of
      Inl err \<Rightarrow> False
    | Inr s \<Rightarrow>
        poly_declarations s ''f'' = Some [''x'', ''y''] \<and>
        polyExprs s ''f'' = Some (VarExpr ''x'' 3) \<and>
        poly_decl_first_line s = [(''f'', 3)] \<and>
        duplicate_decl_lines s = [4] \<and>
        lexer s = [Token EXECUTE ''EXECUTE'' 5])"
  by code_simp

text \<open>
  Claim C10. A declaration whose name is not followed by an opening parenthesis stores
  the parameter list \<open>[x]\<close> for its name; every identifier among the tokens of its body
  that is not \<open>x\<close> has its line appended to the invalid monomials, and no other line is;
  and a call of the name is recorded as an arity mismatch unless it has one argument.
\<close>

theorem default_parameter_is_x:
  assumes "parse_poly_decl s = Inr s'" and "token_type (peek 2 s) \<noteq> LPAREN"
  shows "poly_declarations s' (lexeme (peek 1 s)) = Some [''x''] \<and>
    (\<exists>teq cb tsemi.
       lexer s = [peek 1 s, teq] @ cb @ [tsemi] @ lexer s' \<and>
       invalid_monomial_lines s' =
         invalid_monomial_lines s @
         map line_no (filter (\<lambda>t. token_type t = ID \<and> lexeme t \<noteq> ''x'') cb)) \<and>
    semantic_errors (record_call_finding (lexeme (peek 1 s)) n ln s') =
      (if n = 1 then semantic_errors s' else semantic_errors s' @ [arity_error ln])"
proof -
  from parse_poly_decl_effect [OF assms(1)] obtain h s1 ch teq cb tsemi body where
    a: "parse_poly_header s = Inr (h, s1)"
    and b: "lexer s1 = [teq] @ cb @ [tsemi] @ lexer s'"
    and c: "s' = s\<lparr>lexer := lexer s',
            poly_declarations := (poly_declarations s)(name h \<mapsto> params h),
            current_poly_params := params h,
            in_poly_decl := False,
            invalid_monomial_lines := invalid_monomial_lines s @ bad_ids (params h) cb,
            duplicate_decl_lines :=
              (if map_of (poly_decl_first_line s) (name h) \<noteq> None
               then duplicate_decl_lines s @ [line h] else duplicate_decl_lines s),
            poly_decl_first_line :=
              (if map_of (poly_decl_first_line s) (name h) \<noteq> None
               then poly_decl_first_line s else poly_decl_first_line s @ [(name h, line h)]),
            polyExprs :=
              (if map_of (poly_decl_first_line s) (name h) \<noteq> None
               then polyExprs s else (polyExprs s)(name h \<mapsto> body))\<rparr>"
    by blast
  from parse_poly_header_default [OF a assms(2)] have
    h: "name h = lexeme (peek 1 s)" "params h = [''x'']" and l: "lexer s = [peek 1 s] @ lexer s1"
    by simp_all
  have d: "poly_declarations s' (lexeme (peek 1 s)) = Some [''x'']"
    by (subst c) (simp add: h)
  have i: "invalid_monomial_lines s' =
      invalid_monomial_lines s @
      map line_no (filter (\<lambda>t. token_type t = ID \<and> lexeme t \<noteq> ''x'') cb)"
    by (subst c) (simp add: h bad_ids_def)
  have "lexer s = [peek 1 s, teq] @ cb @ [tsemi] @ lexer s'" using l b by simp
  with i have e: "\<exists>teq cb tsemi.
       lexer s = [peek 1 s, teq] @ cb @ [tsemi] @ lexer s' \<and>
       invalid_monomial_lines s' =
         invalid_monomial_lines s @
         map line_no (filter (\<lambda>t. token_type t = ID \<and> lexeme t \<noteq> ''x'') cb)"
    by blast
  have "semantic_errors (record_call_finding (lexeme (peek 1 s)) n ln s') =
      (if n = 1 then semantic_errors s' else semantic_errors s' @ [arity_error ln])"
    using d by (simp add: record_call_finding_def)
  with d e show ?thesis by blast
qed

text \<open>The declaration \<open>f = 2 x y + z;\<close>, with \<open>z\<close> on the next line, before the next section.\<close>

definition default_parameter_tokens :: "Token list" where
  "default_parameter_tokens =
    [Token ID ''f'' 3, Token EQUAL ''='' 3, Token NUM ''2'' 3, Token ID ''x'' 3, Token ID ''y'' 3,
     Token PLUS ''+'' 3, Token ID ''z'' 4, Token SEMICOLON '';'' 4, Token EXECUTE ''EXECUTE'' 5]"

theorem default_parameter_is_x_witness:
  "\<not> isl (parse_poly_decl (initial_parser_state default_parameter_tokens)) \<and>
   token_type (peek 2 (initial_parser_state default_parameter_tokens)) \<noteq> LPAREN \<and>
   poly_declarations (projr (parse_poly_decl (initial_parser_state default_parameter_tokens))) ''f'' =
     Some [''x''] \<and>
   invalid_monomial_lines (projr (parse_poly_decl (initial_parser_state default_parameter_tokens))) =
     [3, 4] \<and>
   semantic_errors (record_call_finding ''f'' 2 9
       (projr (parse_poly_decl (initial_parser_state default_parameter_tokens)))) = [arity_error 9] \<and>
   semantic_errors (record_call_finding ''f'' 1 9
       (projr (parse_poly_decl (initial_parser_state default_parameter_tokens)))) = []"
proof -
  let ?s = "initial_parser_state default_parameter_tokens"
  have r: "\<not> isl (parse_poly_decl ?s)" by code_simp
  then obtain s' where p: "parse_poly_decl ?s = Inr s'"
    by (cases "parse_poly_decl ?s") auto
  then have s': "projr (parse_poly_decl ?s) = s'" by simp
  have q: "token_type (peek 2 ?s) \<noteq> LPAREN"
    by (simp add: peek_def lexer_peek_def initial_parser_state_def default_parameter_tokens_def)
  have n: "lexeme (peek 1 ?s) = ''f''"
    by (simp add: peek_def lexer_peek_def initial_parser_state_def default_parameter_tokens_def)
  have "lexer (projr (parse_poly_decl ?s)) = [Token EXECUTE ''EXECUTE'' 5]" by code_simp
  then have l: "lexer s' = [Token EXECUTE ''EXECUTE'' 5]" using s' by simp
  have "semantic_errors (projr (parse_poly_decl ?s)) = []" by code_simp
  then have e: "semantic_errors s' = []" using s' by simp
  have i0: "invalid_monomial_lines ?s = []" by (simp add: initial_parser_state_def)
  from default_parameter_is_x [OF p q, of 2 9] n e
  have a: "poly_declarations s' ''f'' = Some [''x'']"
    and b: "semantic_errors (record_call_finding ''f'' 2 9 s') = [arity_error 9]"
    by simp_all
  from default_parameter_is_x [OF p q, of 1 9] n e
  have c: "semantic_errors (record_call_finding ''f'' 1 9 s') = []" by simp
  from default_parameter_is_x [OF p q, of 1 9] obtain teq cb tsemi where
    t: "lexer ?s = [peek 1 ?s, teq] @ cb @ [tsemi] @ lexer s'"
    and i: "invalid_monomial_lines s' =
         invalid_monomial_lines ?s @
         map line_no (filter (\<lambda>t. token_type t = ID \<and> lexeme t \<noteq> ''x'') cb)"
    by blast
  from t l have "(cb @ [tsemi]) @ [Token EXECUTE ''EXECUTE'' 5] =
      ([Token NUM ''2'' 3, Token ID ''x'' 3, Token ID ''y'' 3, Token PLUS ''+'' 3, Token ID ''z'' 4]
        @ [Token SEMICOLON '';'' 4]) @ [Token EXECUTE ''EXECUTE'' 5]"
    by (simp add: initial_parser_state_def default_parameter_tokens_def)
  then have "cb @ [tsemi] =
      [Token NUM ''2'' 3, Token ID ''x'' 3, Token ID ''y'' 3, Token PLUS ''+'' 3, Token ID ''z'' 4]
        @ [Token SEMICOLON '';'' 4]"
    by (simp only: append_same_eq)
  then have "cb = [Token NUM ''2'' 3, Token ID ''x'' 3, Token ID ''y'' 3, Token PLUS ''+'' 3,
      Token ID ''z'' 4]"
    by (simp only: append1_eq_conv)
  with i i0 have d: "invalid_monomial_lines s' = [3, 4]" by simp
  from r q a b c d show ?thesis unfolding s' by blast
qed

section \<open>The selection of tasks\<close>

text \<open>
  The task number of a numeral, as \<^verbatim>\<open>parse_num_list\<close> holds it in an \<^verbatim>\<open>int\<close>, and the tasks
  that a list of numerals selects.
\<close>

definition task_of :: "Token \<Rightarrow> cint" where
  "task_of t = word_of_int (atoi (lexeme t))"

definition selected_tasks :: "Token list \<Rightarrow> cint set" where
  "selected_tasks nums = set (map task_of nums) \<inter> {2, 3, 4, 5}"

lemma set_task_flags_alt:
  "set_task_flags task s =
     s\<lparr>runTask2 := runTask2 s \<or> task = 2, runTask3 := runTask3 s \<or> task = 3,
       runTask4 := runTask4 s \<or> task = 4, runTask5 := runTask5 s \<or> task = 5\<rparr>"
  by (cases s) (simp add: set_task_flags_def Let_def)

lemma fold_set_task_flags:
  "fold (\<lambda>t. set_task_flags (task_of t)) nums s =
     s\<lparr>runTask2 := runTask2 s \<or> 2 \<in> set (map task_of nums),
       runTask3 := runTask3 s \<or> 3 \<in> set (map task_of nums),
       runTask4 := runTask4 s \<or> 4 \<in> set (map task_of nums),
       runTask5 := runTask5 s \<or> 5 \<in> set (map task_of nums)\<rparr>"
proof (induction nums arbitrary: s)
  case Nil
  show ?case by (cases s) simp
next
  case (Cons t nums)
  let ?f = "\<lambda>t. set_task_flags (task_of t)"
  let ?s1 = "set_task_flags (task_of t) s"
  have "fold ?f (t # nums) s = fold ?f nums ?s1" by simp
  also have "\<dots> =
     ?s1\<lparr>runTask2 := runTask2 ?s1 \<or> 2 \<in> set (map task_of nums),
       runTask3 := runTask3 ?s1 \<or> 3 \<in> set (map task_of nums),
       runTask4 := runTask4 ?s1 \<or> 4 \<in> set (map task_of nums),
       runTask5 := runTask5 ?s1 \<or> 5 \<in> set (map task_of nums)\<rparr>"
    by (rule Cons)
  also have "\<dots> =
     s\<lparr>runTask2 := runTask2 s \<or> 2 \<in> set (map task_of (t # nums)),
       runTask3 := runTask3 s \<or> 3 \<in> set (map task_of (t # nums)),
       runTask4 := runTask4 s \<or> 4 \<in> set (map task_of (t # nums)),
       runTask5 := runTask5 s \<or> 5 \<in> set (map task_of (t # nums))\<rparr>"
    by (cases s) (auto simp: set_task_flags_alt)
  finally show ?case .
qed

lemma peek_set_task_flags [simp]: "peek k (set_task_flags task s) = peek k s"
  by (simp add: peek_def)

lemma parse_num_list_fold:
  "nums \<noteq> [] \<Longrightarrow> list_all (\<lambda>t. token_type t = NUM) nums \<Longrightarrow>
   token_type (lexer_peek rest 1) \<noteq> NUM \<Longrightarrow> lexer s = nums @ rest \<Longrightarrow>
   parse_num_list s = Inr (fold (\<lambda>t. set_task_flags (task_of t)) nums (s\<lparr>lexer := rest\<rparr>))"
proof (induction nums arbitrary: s rule: list_nonempty_induct)
  case (single t)
  then have e: "expect NUM s = Inr (t, s\<lparr>lexer := rest\<rparr>)"
    by (simp add: expect_def lexer_GetToken_def)
  show ?case
    using single(2) by (simp add: parse_num_list.simps [of s] e Let_def peek_def task_of_def)
next
  case (cons t nums)
  then have e: "expect NUM s = Inr (t, s\<lparr>lexer := nums @ rest\<rparr>)"
    by (simp add: expect_def lexer_GetToken_def)
  let ?s2 = "set_task_flags (task_of t) (s\<lparr>lexer := nums @ rest\<rparr>)"
  have n: "token_type (peek 1 ?s2) = NUM"
    using cons(1,3) by (cases nums) (simp_all add: peek_def lexer_peek_def)
  have l: "lexer ?s2 = nums @ rest" by simp
  have u: "?s2\<lparr>lexer := rest\<rparr> = set_task_flags (task_of t) (s\<lparr>lexer := rest\<rparr>)"
    by (cases s) (simp add: set_task_flags_alt)
  have "parse_num_list s = parse_num_list ?s2"
    using n by (simp add: parse_num_list.simps [of s] e Let_def task_of_def)
  also have "\<dots> = Inr (fold (\<lambda>t. set_task_flags (task_of t)) nums (?s2\<lparr>lexer := rest\<rparr>))"
    using cons(3) by (intro cons(2) [OF _ cons(4) l]) simp
  finally show ?case by (simp add: u)
qed

lemma parse_tasks_section_selected:
  assumes "nums1 \<noteq> []" and "nums2 \<noteq> []"
    and "list_all (\<lambda>t. token_type t = NUM) nums1" and "list_all (\<lambda>t. token_type t = NUM) nums2"
    and "token_type (lexer_peek rest 1) \<noteq> NUM"
    and "selected_tasks nums1 = selected_tasks nums2"
  shows "parse_tasks_section (initial_parser_state (t0 # nums1 @ rest)) =
         parse_tasks_section (initial_parser_state (t0 # nums2 @ rest))"
proof (cases "token_type t0 = TASKS")
  case False
  then show ?thesis
    by (simp add: parse_tasks_section_def expect_def lexer_GetToken_def initial_parser_state_def)
next
  case True
  have m: "(k \<in> set (map task_of nums1)) = (k \<in> set (map task_of nums2))"
    if "k \<in> {2, 3, 4, 5}" for k
    using assms(6) that unfolding selected_tasks_def by blast
  have e: "expect TASKS (initial_parser_state (t0 # nums @ rest)) =
      Inr (t0, initial_parser_state (nums @ rest))" for nums
    using True by (simp add: expect_def lexer_GetToken_def initial_parser_state_def)
  have p: "parse_num_list (initial_parser_state (nums @ rest)) =
      Inr (fold (\<lambda>t. set_task_flags (task_of t)) nums (initial_parser_state rest))"
    if "nums \<noteq> []" "list_all (\<lambda>t. token_type t = NUM) nums" for nums
    using parse_num_list_fold [OF that assms(5), of "initial_parser_state (nums @ rest)"]
    by (simp add: initial_parser_state_def)
  show ?thesis
    using m [of 2] m [of 3] m [of 4] m [of 5]
    by (simp add: parse_tasks_section_def e p assms(1-4) fold_set_task_flags)
qed

lemma parse_tasks_section_flags:
  assumes "nums \<noteq> []" and "list_all (\<lambda>t. token_type t = NUM) nums"
    and "token_type (lexer_peek rest 1) \<noteq> NUM" and "token_type t0 = TASKS"
  shows "\<exists>s. parse_tasks_section (initial_parser_state (t0 # nums @ rest)) = Inr s \<and>
           lexer s = rest \<and>
           (runTask2 s \<longleftrightarrow> 2 \<in> selected_tasks nums) \<and> (runTask3 s \<longleftrightarrow> 3 \<in> selected_tasks nums) \<and>
           (runTask4 s \<longleftrightarrow> 4 \<in> selected_tasks nums) \<and> (runTask5 s \<longleftrightarrow> 5 \<in> selected_tasks nums)"
proof -
  have e: "expect TASKS (initial_parser_state (t0 # nums @ rest)) =
      Inr (t0, initial_parser_state (nums @ rest))"
    using assms(4) by (simp add: expect_def lexer_GetToken_def initial_parser_state_def)
  have p: "parse_num_list (initial_parser_state (nums @ rest)) =
      Inr (fold (\<lambda>t. set_task_flags (task_of t)) nums (initial_parser_state rest))"
    using parse_num_list_fold [OF assms(1-3), of "initial_parser_state (nums @ rest)"]
    by (simp add: initial_parser_state_def)
  show ?thesis
    by (simp add: parse_tasks_section_def e p fold_set_task_flags selected_tasks_def)
      (simp add: initial_parser_state_def)
qed

lemma selected_tasks_set: "set nums1 = set nums2 \<Longrightarrow> selected_tasks nums1 = selected_tasks nums2"
  by (simp add: selected_tasks_def)

lemma selected_tasks_repeated:
  "task_of t \<in> set (map task_of nums) \<Longrightarrow> selected_tasks (t # nums) = selected_tasks nums"
  by (auto simp: selected_tasks_def)

text \<open>
  Claim C9. The selection of tasks is idempotent and does not depend on the order. A list
  with a task number repeated, and a permutation of a list, select the same set of tasks
  as the list. Two programs that differ only in their lists of task numbers, and whose
  lists select the same set of tasks, leave the TASKS section in the same state and
  have the same observable behaviour; in that state the flag of a task is set exactly
  when the list selects the task.
\<close>

theorem task_selection_depends_on_set:
  assumes "nums1 \<noteq> []" and "nums2 \<noteq> []"
    and "list_all (\<lambda>t. token_type t = NUM) nums1" and "list_all (\<lambda>t. token_type t = NUM) nums2"
    and "token_type (lexer_peek rest 1) \<noteq> NUM"
    and "selected_tasks nums1 = selected_tasks nums2"
  shows "parse_tasks_section (initial_parser_state (t0 # nums1 @ rest)) =
           parse_tasks_section (initial_parser_state (t0 # nums2 @ rest)) \<and>
         main fuel (t0 # nums1 @ rest) = main fuel (t0 # nums2 @ rest) \<and>
         (token_type t0 = TASKS \<longrightarrow>
            (\<exists>s. parse_tasks_section (initial_parser_state (t0 # nums1 @ rest)) = Inr s \<and>
               lexer s = rest \<and>
               (runTask2 s \<longleftrightarrow> 2 \<in> selected_tasks nums1) \<and>
               (runTask3 s \<longleftrightarrow> 3 \<in> selected_tasks nums1) \<and>
               (runTask4 s \<longleftrightarrow> 4 \<in> selected_tasks nums1) \<and>
               (runTask5 s \<longleftrightarrow> 5 \<in> selected_tasks nums1))) \<and>
         (task_of t \<in> set (map task_of nums) \<longrightarrow> selected_tasks (t # nums) = selected_tasks nums) \<and>
         (mset numsa = mset numsb \<longrightarrow> selected_tasks numsa = selected_tasks numsb)"
proof -
  have "mset numsa = mset numsb \<longrightarrow> selected_tasks numsa = selected_tasks numsb"
    using selected_tasks_set [of numsa numsb] mset_eq_setD [of numsa numsb] by blast
  moreover have "token_type t0 = TASKS \<longrightarrow>
      (\<exists>s. parse_tasks_section (initial_parser_state (t0 # nums1 @ rest)) = Inr s \<and>
         lexer s = rest \<and>
         (runTask2 s \<longleftrightarrow> 2 \<in> selected_tasks nums1) \<and>
         (runTask3 s \<longleftrightarrow> 3 \<in> selected_tasks nums1) \<and>
         (runTask4 s \<longleftrightarrow> 4 \<in> selected_tasks nums1) \<and>
         (runTask5 s \<longleftrightarrow> 5 \<in> selected_tasks nums1))"
    using parse_tasks_section_flags [OF assms(1,3,5)] by blast
  moreover have "main fuel (t0 # nums1 @ rest) = main fuel (t0 # nums2 @ rest)"
    using parse_tasks_section_selected [OF assms]
    by (simp add: main_def ConsumeAllInput_def parse_program_def)
  ultimately show ?thesis
    using parse_tasks_section_selected [OF assms] selected_tasks_repeated [of t nums]
    by (intro conjI impI) blast+
qed

text \<open>
  What follows the task numbers in the program
  \<open>POLY f(x) = x + 1; EXECUTE INPUT a; b = f(a); OUTPUT b; INPUTS 5\<close>.
\<close>

definition increment_program_rest :: "Token list" where
  "increment_program_rest =
    [Token POLY ''POLY'' 2,
     Token ID ''f'' 3, Token LPAREN ''('' 3, Token ID ''x'' 3, Token RPAREN '')'' 3,
       Token EQUAL ''='' 3, Token ID ''x'' 3, Token PLUS ''+'' 3, Token NUM ''1'' 3,
       Token SEMICOLON '';'' 3,
     Token EXECUTE ''EXECUTE'' 4,
     Token INPUT ''INPUT'' 5, Token ID ''a'' 5, Token SEMICOLON '';'' 5,
     Token ID ''b'' 6, Token EQUAL ''='' 6, Token ID ''f'' 6, Token LPAREN ''('' 6,
       Token ID ''a'' 6, Token RPAREN '')'' 6, Token SEMICOLON '';'' 6,
     Token OUTPUT ''OUTPUT'' 7, Token ID ''b'' 7, Token SEMICOLON '';'' 7,
     Token INPUTS ''INPUTS'' 8, Token NUM ''5'' 8]"

text \<open>
  The lists \<open>5 2 5\<close> and \<open>2 5\<close> select the tasks 2 and 5. The numeral \<open>4294967298\<close> is
  \<open>2\<^sup>3\<^sup>2 + 2\<close>, which an \<^verbatim>\<open>int\<close> holds as 2: alone, it selects task 2.
\<close>

theorem task_selection_depends_on_set_witness:
  "main 1 (Token TASKS ''TASKS'' 1 #
      [Token NUM ''5'' 1, Token NUM ''2'' 1, Token NUM ''5'' 1] @ increment_program_rest) =
   main 1 (Token TASKS ''TASKS'' 1 #
      [Token NUM ''2'' 1, Token NUM ''5'' 1] @ increment_program_rest) \<and>
   main 1 (Token TASKS ''TASKS'' 1 #
      [Token NUM ''2'' 1, Token NUM ''5'' 1] @ increment_program_rest) = Exited 0 [''6'', ''f: 1''] \<and>
   main 1 (Token TASKS ''TASKS'' 1 # [Token NUM ''4294967298'' 1] @ increment_program_rest) =
   main 1 (Token TASKS ''TASKS'' 1 # [Token NUM ''2'' 1] @ increment_program_rest) \<and>
   main 1 (Token TASKS ''TASKS'' 1 # [Token NUM ''2'' 1] @ increment_program_rest) = Exited 0 [''6''] \<and>
   selected_tasks [Token NUM ''5'' 1, Token NUM ''2'' 1, Token NUM ''5'' 1] = {2, 5} \<and>
   selected_tasks [Token NUM ''4294967298'' 1] = {2}"
proof -
  let ?a = "[Token NUM ''5'' 1, Token NUM ''2'' 1, Token NUM ''5'' 1]"
  let ?b = "[Token NUM ''2'' 1, Token NUM ''5'' 1]"
  let ?c = "[Token NUM ''4294967298'' 1]"
  let ?d = "[Token NUM ''2'' 1]"
  have 1: "?a \<noteq> []" "?b \<noteq> []" "?c \<noteq> []" "?d \<noteq> []" by simp_all
  have 2: "list_all (\<lambda>t. token_type t = NUM) ?a" "list_all (\<lambda>t. token_type t = NUM) ?b"
    "list_all (\<lambda>t. token_type t = NUM) ?c" "list_all (\<lambda>t. token_type t = NUM) ?d"
    by simp_all
  have 3: "token_type (lexer_peek increment_program_rest 1) \<noteq> NUM"
    by (simp add: lexer_peek_def increment_program_rest_def)
  have a: "atoi ''5'' = 5" "atoi ''2'' = 2" "atoi ''4294967298'' = 4294967298"
    by (simp_all add: atoi_def read_signed_def is_space_def is_digit_def digit_val_def)
  have w: "word_of_int 4294967298 = (2 :: cint)" by simp
  have sa: "selected_tasks ?a = {2, 5}" by (auto simp: selected_tasks_def task_of_def a)
  have sb: "selected_tasks ?b = {2, 5}" by (auto simp: selected_tasks_def task_of_def a)
  have sc: "selected_tasks ?c = {2}" by (simp add: selected_tasks_def task_of_def a w)
  have sd: "selected_tasks ?d = {2}" by (simp add: selected_tasks_def task_of_def a)
  have 4: "selected_tasks ?a = selected_tasks ?b" "selected_tasks ?c = selected_tasks ?d"
    by (simp_all only: sa sb sc sd)
  have 5: "main 1 (Token TASKS ''TASKS'' 1 # ?b @ increment_program_rest) = Exited 0 [''6'', ''f: 1'']"
    by code_simp
  have 6: "main 1 (Token TASKS ''TASKS'' 1 # ?d @ increment_program_rest) = Exited 0 [''6'']"
    by code_simp
  from task_selection_depends_on_set
    [OF 1(1,2) 2(1,2) 3 4(1), where fuel = 1 and ?t0.0 = "Token TASKS ''TASKS'' 1"]
  have 7: "main 1 (Token TASKS ''TASKS'' 1 # ?a @ increment_program_rest) =
      main 1 (Token TASKS ''TASKS'' 1 # ?b @ increment_program_rest)"
    by blast
  from task_selection_depends_on_set
    [OF 1(3,4) 2(3,4) 3 4(2), where fuel = 1 and ?t0.0 = "Token TASKS ''TASKS'' 1"]
  have 8: "main 1 (Token TASKS ''TASKS'' 1 # ?c @ increment_program_rest) =
      main 1 (Token TASKS ''TASKS'' 1 # ?d @ increment_program_rest)"
    by blast
  from 5 6 7 8 sa sc show ?thesis by (intro conjI)
qed

section \<open>Evaluation of calls and powers\<close>

lemma pow_loop_power: "pow_loop k bval res = res * bval ^ k"
  by (induction k arbitrary: res) (simp_all add: mult.assoc)

lemma bind_params_step:
  "i < length ps \<Longrightarrow>
   bind_params i ps args env =
     bind_params (Suc i) ps args (env(ps ! i \<mapsto> (if i < length args then args ! i else 0)))"
  by (subst bind_params.simps) simp

lemma bind_params_done: "\<not> i < length ps \<Longrightarrow> bind_params i ps args env = env"
  by (subst bind_params.simps) simp

lemma bind_params_other:
  "x \<notin> set (drop i ps) \<Longrightarrow> bind_params i ps args env x = env x"
proof (induction i ps args env rule: bind_params.induct)
  case (1 i ps args env)
  show ?case
  proof (cases "i < length ps")
    case True
    define v where "v = (if i < length args then args ! i else 0)"
    from 1(2) True have n: "x \<noteq> ps ! i" "x \<notin> set (drop (Suc i) ps)"
      by (auto simp: Cons_nth_drop_Suc [symmetric])
    have "bind_params i ps args env x = bind_params (Suc i) ps args (env(ps ! i \<mapsto> v)) x"
      unfolding v_def by (simp only: bind_params_step [OF True])
    also have "\<dots> = (env(ps ! i \<mapsto> v)) x"
      unfolding v_def by (rule 1(1) [OF True n(2)])
    also have "\<dots> = env x" using n(1) by simp
    finally show ?thesis .
  next
    case False
    then show ?thesis by (simp add: bind_params_done)
  qed
qed

lemma bind_params_last:
  "i \<le> j \<Longrightarrow> j < length ps \<Longrightarrow> ps ! j \<notin> set (drop (Suc j) ps) \<Longrightarrow>
   bind_params i ps args env (ps ! j) = Some (if j < length args then args ! j else 0)"
proof (induction i ps args env rule: bind_params.induct)
  case (1 i ps args env)
  from 1(2,3) have lt: "i < length ps" by simp
  define v where "v = (if i < length args then args ! i else 0)"
  have step: "bind_params i ps args env (ps ! j) =
      bind_params (Suc i) ps args (env(ps ! i \<mapsto> v)) (ps ! j)"
    unfolding v_def by (simp only: bind_params_step [OF lt])
  show ?case
  proof (cases "i = j")
    case True
    from 1(4) have "bind_params (Suc j) ps args (env(ps ! j \<mapsto> v)) (ps ! j) = (env(ps ! j \<mapsto> v)) (ps ! j)"
      by (rule bind_params_other)
    then show ?thesis unfolding step using True by (simp add: v_def)
  next
    case False
    with 1(2) have "Suc i \<le> j" by simp
    from 1(1) [OF lt this 1(3,4)] show ?thesis unfolding step v_def .
  qed
qed

lemma distinct_last_occurrence:
  "distinct ps \<Longrightarrow> i < length ps \<Longrightarrow> ps ! i \<notin> set (drop (Suc i) ps)"
  by (auto simp: in_set_conv_nth distinct_conv_nth)

lemma last_occurrence_exists:
  "x \<in> set ps \<Longrightarrow> \<exists>i < length ps. ps ! i = x \<and> x \<notin> set (drop (Suc i) ps)"
proof (induction ps)
  case Nil
  then show ?case by simp
next
  case (Cons p ps)
  show ?case
  proof (cases "x \<in> set ps")
    case True
    from Cons.IH [OF this] obtain i where "i < length ps" "ps ! i = x" "x \<notin> set (drop (Suc i) ps)"
      by blast
    then have "Suc i < length (p # ps) \<and> (p # ps) ! Suc i = x \<and> x \<notin> set (drop (Suc (Suc i)) (p # ps))"
      by simp
    then show ?thesis by blast
  next
    case False
    with Cons.prems have "0 < length (p # ps) \<and> (p # ps) ! 0 = x \<and> x \<notin> set (drop (Suc 0) (p # ps))"
      by simp
    then show ?thesis by blast
  qed
qed

text \<open>An expression without a call, as the parser of polynomial bodies builds them.\<close>

fun call_free :: "Expr \<Rightarrow> bool" where
  "call_free (ConstExpr v) = True"
| "call_free (VarExpr x ln) = True"
| "call_free (AddExpr l r) = (call_free l \<and> call_free r)"
| "call_free (SubExpr l r) = (call_free l \<and> call_free r)"
| "call_free (MulExpr l r) = (call_free l \<and> call_free r)"
| "call_free (PowExpr b e) = call_free b"
| "call_free (CallExpr f args) = False"

definition bodies_call_free :: "(string \<rightharpoonup> Expr) \<Rightarrow> bool" where
  "bodies_call_free bodies \<longleftrightarrow> (\<forall>f body. bodies f = Some body \<longrightarrow> call_free body)"

lemma evaluate_call_free: "call_free e \<Longrightarrow> \<exists>v. evaluate fuel decls bodies e env = Some v"
  by (induction e) auto

lemma those_map_Some:
  "(\<And>a. a \<in> set args \<Longrightarrow> \<exists>v. f a = Some v) \<Longrightarrow> \<exists>vs. those (map f args) = Some vs"
proof (induction args)
  case Nil
  show ?case by simp
next
  case (Cons a args)
  from Cons.prems [of a] obtain v where "f a = Some v" by auto
  moreover from Cons.IH Cons.prems obtain vs where "those (map f args) = Some vs" by auto
  ultimately show ?case by simp
qed

lemma evaluate_returns:
  assumes "bodies_call_free bodies"
  shows "\<exists>v. evaluate (Suc k) decls bodies e env = Some v"
proof (induction e)
  case (CallExpr f args)
  then obtain vs where vs: "those (map (\<lambda>e. evaluate (Suc k) decls bodies e env) args) = Some vs"
    using those_map_Some [of args "\<lambda>e. evaluate (Suc k) decls bodies e env"] by blast
  show ?case
  proof (cases "decls f")
    case None
    with vs show ?thesis by simp
  next
    case (Some ps)
    show ?thesis
    proof (cases "bodies f")
      case None
      with vs Some show ?thesis by simp
    next
      case (Some body)
      with assms have "call_free body" by (auto simp: bodies_call_free_def)
      from evaluate_call_free [OF this, of k decls bodies "bind_params 0 ps vs Map.empty"]
      show ?thesis using vs Some \<open>decls f = Some ps\<close> by simp
    qed
  qed
qed auto

lemma evaluate_call:
  "evaluate (Suc k) decls bodies (CallExpr f args) env =
     (case those (map (\<lambda>e. evaluate (Suc k) decls bodies e env) args) of
        None \<Rightarrow> None
      | Some argVals \<Rightarrow>
          (case decls f of
             None \<Rightarrow> Some 0
           | Some ps \<Rightarrow>
               (case bodies f of
                  None \<Rightarrow> Some 0
                | Some body \<Rightarrow> evaluate k decls bodies body (bind_params 0 ps argVals Map.empty))))"
  by (simp split: option.splits)

text \<open>
  Claim C6. A call evaluates its arguments in the environment of the caller and then
  the body of the callee in a new environment, built from the empty one, that binds the
  declared parameters by position and binds a parameter without argument to zero: the
  parameter at position \<open>i\<close> has the value of the argument at position \<open>i\<close> (when a name
  is declared at several positions, as in \<open>f(x, x)\<close>, which the parser accepts, the
  bindings are made from left to right and the name keeps that of its last position).
  No other name is bound, so the value of the call depends on the caller's environment
  only through the values of the arguments. A power is the value of the base multiplied
  \<open>e\<close> times, 1 for the exponent 0. A call of a name that is not declared is zero. The
  evaluation of a body without calls returns, and so does the evaluation of every
  expression when the stored bodies have no calls.
\<close>

theorem call_and_power_evaluation:
  "evaluate (Suc k) decls bodies (CallExpr f args) env =
     (case those (map (\<lambda>e. evaluate (Suc k) decls bodies e env) args) of
        None \<Rightarrow> None
      | Some argVals \<Rightarrow>
          (case decls f of
             None \<Rightarrow> Some 0
           | Some ps \<Rightarrow>
               (case bodies f of
                  None \<Rightarrow> Some 0
                | Some body \<Rightarrow> evaluate k decls bodies body (bind_params 0 ps argVals Map.empty)))) \<and>
   (i < length ps \<and> ps ! i \<notin> set (drop (Suc i) ps) \<longrightarrow>
      bind_params 0 ps argVals Map.empty (ps ! i) =
        Some (if i < length argVals then argVals ! i else 0)) \<and>
   (distinct ps \<and> i < length ps \<longrightarrow> ps ! i \<notin> set (drop (Suc i) ps)) \<and>
   (x \<in> set ps \<longrightarrow> (\<exists>j < length ps. ps ! j = x \<and> x \<notin> set (drop (Suc j) ps))) \<and>
   (x \<notin> set ps \<longrightarrow> bind_params 0 ps argVals Map.empty x = None) \<and>
   (those (map (\<lambda>e. evaluate (Suc k) decls bodies e env) args) =
    those (map (\<lambda>e. evaluate (Suc k) decls bodies e env') args) \<longrightarrow>
      evaluate (Suc k) decls bodies (CallExpr f args) env =
      evaluate (Suc k) decls bodies (CallExpr f args) env') \<and>
   evaluate fuel decls bodies (PowExpr b e) env =
     map_option (\<lambda>bval. bval ^ nat (sint e)) (evaluate fuel decls bodies b env) \<and>
   evaluate fuel decls bodies (PowExpr b 0) env =
     map_option (\<lambda>bval. 1) (evaluate fuel decls bodies b env) \<and>
   (decls f = None \<and> those (map (\<lambda>e. evaluate fuel decls bodies e env) args) = Some argVals \<longrightarrow>
      evaluate fuel decls bodies (CallExpr f args) env = Some 0) \<and>
   (call_free body \<longrightarrow> (\<exists>v. evaluate k decls bodies body env = Some v)) \<and>
   (bodies_call_free bodies \<longrightarrow> (\<exists>v. evaluate (Suc k) decls bodies e' env = Some v))"
proof -
  have 1: "i < length ps \<and> ps ! i \<notin> set (drop (Suc i) ps) \<longrightarrow>
      bind_params 0 ps argVals Map.empty (ps ! i) =
        Some (if i < length argVals then argVals ! i else 0)"
    using bind_params_last [of 0 i ps argVals Map.empty] by simp
  have la: "distinct ps \<and> i < length ps \<longrightarrow> ps ! i \<notin> set (drop (Suc i) ps)"
    using distinct_last_occurrence [of ps i] by blast
  have lb: "x \<in> set ps \<longrightarrow> (\<exists>j < length ps. ps ! j = x \<and> x \<notin> set (drop (Suc j) ps))"
    using last_occurrence_exists [of x ps] by blast
  have 2: "x \<notin> set ps \<longrightarrow> bind_params 0 ps argVals Map.empty x = None"
    using bind_params_other [of x 0 ps argVals Map.empty] by simp
  have 3: "those (map (\<lambda>e. evaluate (Suc k) decls bodies e env) args) =
    those (map (\<lambda>e. evaluate (Suc k) decls bodies e env') args) \<longrightarrow>
      evaluate (Suc k) decls bodies (CallExpr f args) env =
      evaluate (Suc k) decls bodies (CallExpr f args) env'"
    by (simp only: evaluate_call) simp
  have 4: "evaluate fuel decls bodies (PowExpr b e) env =
     map_option (\<lambda>bval. bval ^ nat (sint e)) (evaluate fuel decls bodies b env)"
    "evaluate fuel decls bodies (PowExpr b 0) env =
     map_option (\<lambda>bval. 1) (evaluate fuel decls bodies b env)"
    by (simp_all add: pow_loop_power split: option.splits)
  have 5: "decls f = None \<and> those (map (\<lambda>e. evaluate fuel decls bodies e env) args) = Some argVals \<longrightarrow>
      evaluate fuel decls bodies (CallExpr f args) env = Some 0"
    by simp
  have 6: "call_free body \<longrightarrow> (\<exists>v. evaluate k decls bodies body env = Some v)"
    using evaluate_call_free by blast
  have 7: "bodies_call_free bodies \<longrightarrow> (\<exists>v. evaluate (Suc k) decls bodies e' env = Some v)"
    using evaluate_returns by blast
  from evaluate_call [of k decls bodies f args env] 1 la lb 2 3 4 5 6 7 show ?thesis
    by (intro conjI)
qed

theorem call_and_power_evaluation_witness:
  "evaluate 1 [''f'' \<mapsto> [''x'', ''y'']] [''f'' \<mapsto> AddExpr (VarExpr ''x'' 3) (VarExpr ''y'' 3)]
     (CallExpr ''f'' [VarExpr ''a'' 1]) [''a'' \<mapsto> 5, ''y'' \<mapsto> 100] = Some 5 \<and>
   evaluate 1 [''f'' \<mapsto> [''x'', ''y'']] [''f'' \<mapsto> AddExpr (VarExpr ''x'' 3) (VarExpr ''y'' 3)]
     (CallExpr ''f'' [VarExpr ''a'' 1]) [''a'' \<mapsto> 5] = Some 5 \<and>
   bind_params 0 [''x'', ''y''] [5] Map.empty ''x'' = Some 5 \<and>
   bind_params 0 [''x'', ''y''] [5] Map.empty ''y'' = Some 0 \<and>
   bind_params 0 [''x'', ''y''] [5] Map.empty ''a'' = None \<and>
   evaluate 0 [''f'' \<mapsto> [''x'', ''y'']] [''f'' \<mapsto> AddExpr (VarExpr ''x'' 3) (VarExpr ''y'' 3)]
     (CallExpr ''g'' [ConstExpr 3]) Map.empty = Some 0 \<and>
   evaluate 0 Map.empty Map.empty (PowExpr (ConstExpr 3) 4) Map.empty = Some 81 \<and>
   evaluate 0 Map.empty Map.empty (PowExpr (ConstExpr 3) 0) Map.empty = Some 1 \<and>
   call_free (AddExpr (VarExpr ''x'' 3) (VarExpr ''y'' 3)) \<and>
   bodies_call_free [''f'' \<mapsto> AddExpr (VarExpr ''x'' 3) (VarExpr ''y'' 3)] \<and>
   bind_params 0 [''x'', ''x''] [1, 2] Map.empty ''x'' = Some 2 \<and>
   evaluate 1 [''f'' \<mapsto> [''x'', ''x'']] [''f'' \<mapsto> VarExpr ''x'' 3]
     (CallExpr ''f'' [ConstExpr 1, ConstExpr 2]) Map.empty = Some 2"
proof -
  let ?D = "[''f'' \<mapsto> [''x'', ''y'']]"
  let ?body = "AddExpr (VarExpr ''x'' 3) (VarExpr ''y'' 3)"
  let ?B = "[''f'' \<mapsto> ?body]"
  let ?env = "[''a'' \<mapsto> 5 :: cint, ''y'' \<mapsto> 100]"
  let ?env' = "[''a'' \<mapsto> 5 :: cint]"
  have cf: "call_free ?body" by simp
  have bf: "bodies_call_free ?B" by (simp add: bodies_call_free_def)
  note a = call_and_power_evaluation
    [where k = 0 and decls = ?D and bodies = ?B and f = "''f''" and args = "[VarExpr ''a'' 1]"
      and env = ?env and env' = ?env' and ps = "[''x'', ''y'']" and argVals = "[5]"
      and x = "''a''" and body = ?body and e' = "CallExpr ''f'' [VarExpr ''a'' 1]"]
  have x: "bind_params 0 [''x'', ''y''] [5] Map.empty ''x'' = Some 5"
    using a [where i = 0] by simp
  have y: "bind_params 0 [''x'', ''y''] [5] Map.empty ''y'' = Some 0"
    using a [where i = 1] by simp
  have n: "bind_params 0 [''x'', ''y''] [5] Map.empty ''a'' = None"
    using a [where i = 0] by simp
  have c: "evaluate 1 ?D ?B (CallExpr ''f'' [VarExpr ''a'' 1]) ?env = Some 5"
    using a [where i = 0] x y by simp
  have c': "evaluate 1 ?D ?B (CallExpr ''f'' [VarExpr ''a'' 1]) ?env' = Some 5"
    using a [where i = 0] c by simp
  have u: "evaluate 0 ?D ?B (CallExpr ''g'' [ConstExpr 3]) Map.empty = Some 0"
    using call_and_power_evaluation
      [where decls = ?D and bodies = ?B and f = "''g''" and args = "[ConstExpr 3]"
        and env = Map.empty and fuel = 0 and argVals = "[3]"]
    by simp
  have p: "evaluate 0 Map.empty Map.empty (PowExpr (ConstExpr 3) 4) Map.empty = Some 81"
    "evaluate 0 Map.empty Map.empty (PowExpr (ConstExpr 3) 0) Map.empty = Some 1"
    using call_and_power_evaluation
      [where decls = Map.empty and bodies = Map.empty and fuel = 0 and b = "ConstExpr 3"
        and e = 4 and env = Map.empty]
    by simp_all
  have xx: "bind_params 0 [''x'', ''x''] [1, 2] Map.empty ''x'' = Some 2"
    using call_and_power_evaluation [where ps = "[''x'', ''x'']" and i = 1 and argVals = "[1, 2]"]
    by simp
  have cx: "evaluate 1 [''f'' \<mapsto> [''x'', ''x'']] [''f'' \<mapsto> VarExpr ''x'' 3]
     (CallExpr ''f'' [ConstExpr 1, ConstExpr 2]) Map.empty = Some 2"
    using call_and_power_evaluation
      [where k = 0 and decls = "[''f'' \<mapsto> [''x'', ''x'']]" and bodies = "[''f'' \<mapsto> VarExpr ''x'' 3]"
        and f = "''f''" and args = "[ConstExpr 1, ConstExpr 2]" and env = Map.empty] xx
    by simp
  from c c' x y n u p cf bf xx cx show ?thesis by (intro conjI)
qed

section \<open>The analysis of uninitialized variables\<close>

text \<open>
  The analysis in the words of the specification. The variable occurrences of an
  expression are its \<^verbatim>\<open>VarExpr\<close> nodes with their lines, from left to right. A statement
  initializes the variable it reads into or assigns to; an output initializes nothing.
  The variables initialized before statement \<open>i\<close> are those of the statements before it.
  Statement \<open>i\<close> warns, when it is an assignment, for every occurrence on its right-hand
  side of a variable that is not initialized before it.
\<close>

fun var_occurrences :: "Expr \<Rightarrow> (string \<times> int) list" where
  "var_occurrences (ConstExpr v) = []"
| "var_occurrences (VarExpr x ln) = [(x, ln)]"
| "var_occurrences (AddExpr l r) = var_occurrences l @ var_occurrences r"
| "var_occurrences (SubExpr l r) = var_occurrences l @ var_occurrences r"
| "var_occurrences (MulExpr l r) = var_occurrences l @ var_occurrences r"
| "var_occurrences (PowExpr b e) = var_occurrences b"
| "var_occurrences (CallExpr f args) = concat (map var_occurrences args)"

fun initializes :: "Statement \<Rightarrow> string set" where
  "initializes (InputStmt var) = {var}"
| "initializes (OutputStmt var) = {}"
| "initializes (AssignStmt var ln rhs) = {var}"

definition initialized_before :: "Statement list \<Rightarrow> nat \<Rightarrow> string set" where
  "initialized_before stmts i = \<Union> (set (map initializes (take i stmts)))"

fun uninitialized_uses :: "string set \<Rightarrow> Statement \<Rightarrow> int list" where
  "uninitialized_uses initialized (AssignStmt var ln rhs) =
     map snd (filter (\<lambda>occ. fst occ \<notin> initialized) (var_occurrences rhs))"
| "uninitialized_uses initialized (InputStmt var) = []"
| "uninitialized_uses initialized (OutputStmt var) = []"

definition uninitialized_warnings :: "Statement list \<Rightarrow> int list" where
  "uninitialized_warnings stmts =
     concat (map (\<lambda>i. uninitialized_uses (initialized_before stmts i) (stmts ! i))
       [0..<length stmts])"

lemma fold_check_args:
  assumes "\<And>arg w. arg \<in> set args \<Longrightarrow> check arg w = w @ found arg"
  shows "fold check args w = w @ concat (map found args)"
  using assms by (induction args arbitrary: w) simp_all

lemma check_expr_for_uninit_occurrences:
  "check_expr_for_uninit e initVars warnings =
     warnings @ map snd (filter (\<lambda>occ. fst occ \<notin> initVars) (var_occurrences e))"
proof (induction e initVars warnings rule: check_expr_for_uninit.induct)
  case (7 f args initVars warnings)
  have "fold (\<lambda>arg w. check_expr_for_uninit arg initVars w) args warnings =
      warnings @ concat (map (\<lambda>arg. map snd (filter (\<lambda>occ. fst occ \<notin> initVars)
        (var_occurrences arg))) args)"
    by (rule fold_check_args) (rule 7)
  then show ?case by (simp add: map_concat filter_concat comp_def)
qed simp_all

lemma uninit_scan_from:
  "uninit_scan stmts initialized warnings =
     warnings @ concat (map (\<lambda>i. uninitialized_uses
        (initialized \<union> initialized_before stmts i) (stmts ! i)) [0..<length stmts])"
proof (induction stmts arbitrary: initialized warnings)
  case Nil
  show ?case by simp
next
  case (Cons stmt rest)
  have shift: "map (\<lambda>i. uninitialized_uses
        (initialized \<union> initialized_before (stmt # rest) i) ((stmt # rest) ! i)) [0..<length (stmt # rest)] =
      uninitialized_uses initialized stmt #
      map (\<lambda>i. uninitialized_uses
        ((initialized \<union> initializes stmt) \<union> initialized_before rest i) (rest ! i)) [0..<length rest]"
    by (simp add: upt_conv_Cons map_Suc_upt [symmetric] initialized_before_def Un_assoc
        del: upt_Suc)
  show ?case
    unfolding shift
    by (cases stmt) (simp_all add: Cons check_expr_for_uninit_occurrences Un_commute)
qed

lemma uninit_scan_warnings: "uninit_scan stmts {} [] = uninitialized_warnings stmts"
  by (simp add: uninit_scan_from uninitialized_warnings_def)

text \<open>
  Claim C7. The analysis of uninitialized variables is one scan of the statements with a
  set of initialized names. The set before a statement holds the variables of the
  inputs and the left-hand sides of the assignments before it, so the variable of an
  assignment joins it only after the right-hand side of that assignment is checked.
  Every occurrence of a variable on the right-hand side of an assignment whose name is
  not in the set gives its line; an output is not checked and initializes nothing.
  Nothing is printed when there is no such line; otherwise one line is printed, the
  label \<open>Warning Code 1:\<close> followed, for each of the lines in ascending order, by a blank
  and the number in decimal. For the script \<open>a = f(b, a); INPUT c; d = f(c, e); OUTPUT z;\<close>
  with the first assignment on line 12 and the second on line 5, the line printed is
  \<open>Warning Code 1: 5 12 12\<close>.
\<close>

theorem uninitialized_analysis:
  "uninit_scan stmts {} [] = uninitialized_warnings stmts \<and>
   checkUninitializedWarnings stmts =
     (if uninitialized_warnings stmts = [] then []
      else [report_line ''Warning Code 1:'' (sort (uninitialized_warnings stmts))]) \<and>
   initialized_before stmts 0 = {} \<and>
   initialized_before (stmts @ [InputStmt var]) (Suc (length stmts)) =
     insert var (initialized_before stmts (length stmts)) \<and>
   initialized_before (stmts @ [AssignStmt var ln rhs]) (Suc (length stmts)) =
     insert var (initialized_before stmts (length stmts)) \<and>
   initialized_before (stmts @ [OutputStmt var]) (Suc (length stmts)) =
     initialized_before stmts (length stmts) \<and>
   uninitialized_uses initialized (OutputStmt var) = [] \<and>
   sorted (sort (uninitialized_warnings stmts)) \<and>
   checkUninitializedWarnings stmts =
     (if uninitialized_warnings stmts = [] then []
      else [''Warning Code 1:'' @
            concat (map (\<lambda>n. '' '' @ to_string n) (sort (uninitialized_warnings stmts)))]) \<and>
   mset (sort (uninitialized_warnings stmts)) = mset (uninitialized_warnings stmts) \<and>
   read_signed (to_string n) = n \<and>
   checkUninitializedWarnings
     [AssignStmt ''a'' 12 (CallExpr ''f'' [VarExpr ''b'' 12, VarExpr ''a'' 12]),
      InputStmt ''c'',
      AssignStmt ''d'' 5 (CallExpr ''f'' [VarExpr ''c'' 5, VarExpr ''e'' 5]),
      OutputStmt ''z''] = [''Warning Code 1: 5 12 12'']"
proof -
  have ex: "checkUninitializedWarnings
     [AssignStmt ''a'' 12 (CallExpr ''f'' [VarExpr ''b'' 12, VarExpr ''a'' 12]),
      InputStmt ''c'',
      AssignStmt ''d'' 5 (CallExpr ''f'' [VarExpr ''c'' 5, VarExpr ''e'' 5]),
      OutputStmt ''z''] = [''Warning Code 1: 5 12 12'']"
    by code_simp
  show ?thesis
    by (intro conjI ex read_signed_to_string)
      (simp_all add: uninit_scan_warnings checkUninitializedWarnings_def initialized_before_def
        report_line_def)
qed

section \<open>The analysis of useless assignments\<close>

text \<open>
  The analysis in the words of the specification. For the variable \<open>var\<close> of an
  assignment, a later statement decides when it assigns to \<open>var\<close>, reads into \<open>var\<close>,
  writes \<open>var\<close>, or is an assignment whose right-hand side reads \<open>var\<close>; it proves the use
  when it writes \<open>var\<close> or is an assignment (to \<open>var\<close> or to another variable) whose
  right-hand side reads \<open>var\<close>. The assignment is used when there is a deciding statement
  after it and the first one proves the use.
\<close>

definition reads :: "Expr \<Rightarrow> string \<Rightarrow> bool" where
  "reads e var \<longleftrightarrow> var \<in> fst ` set (var_occurrences e)"

fun decides :: "string \<Rightarrow> Statement \<Rightarrow> bool" where
  "decides var (AssignStmt v ln rhs) = (v = var \<or> reads rhs var)"
| "decides var (InputStmt v) = (v = var)"
| "decides var (OutputStmt v) = (v = var)"

fun proves_use :: "string \<Rightarrow> Statement \<Rightarrow> bool" where
  "proves_use var (AssignStmt v ln rhs) = reads rhs var"
| "proves_use var (InputStmt v) = False"
| "proves_use var (OutputStmt v) = (v = var)"

definition used_later :: "string \<Rightarrow> Statement list \<Rightarrow> bool" where
  "used_later var later =
     (case find (decides var) later of None \<Rightarrow> False | Some stmt \<Rightarrow> proves_use var stmt)"

definition useless_at :: "Statement list \<Rightarrow> nat \<Rightarrow> int list" where
  "useless_at stmts i =
     (case stmts ! i of
        AssignStmt var ln rhs \<Rightarrow> if used_later var (drop (Suc i) stmts) then [] else [ln]
      | InputStmt var \<Rightarrow> []
      | OutputStmt var \<Rightarrow> [])"

definition useless_assignments :: "Statement list \<Rightarrow> int list" where
  "useless_assignments stmts = concat (map (useless_at stmts) [0..<length stmts])"

lemma exprUsesVar_reads: "exprUsesVar e var = reads e var"
  unfolding reads_def
  by (induction e var rule: exprUsesVar.induct) (auto simp: list_ex_iff)

lemma scan_used_later: "scan_used var later = used_later var later"
  unfolding used_later_def
  by (induction var later rule: scan_used.induct) (auto simp: exprUsesVar_reads)

lemma useless_at_Suc: "useless_at (stmt # rest) (Suc i) = useless_at rest i"
  by (simp add: useless_at_def cong: Statement.case_cong)

lemma useless_at_0:
  "useless_at (stmt # rest) 0 =
     (case stmt of
        AssignStmt var ln rhs \<Rightarrow> if used_later var rest then [] else [ln]
      | InputStmt var \<Rightarrow> []
      | OutputStmt var \<Rightarrow> [])"
  by (simp add: useless_at_def cong: Statement.case_cong)

lemma useless_scan_from:
  "useless_scan stmts found = found @ concat (map (useless_at stmts) [0..<length stmts])"
proof (induction stmts arbitrary: found)
  case Nil
  show ?case by simp
next
  case (Cons stmt rest)
  have shift: "map (useless_at (stmt # rest)) [0..<length (stmt # rest)] =
      useless_at (stmt # rest) 0 # map (useless_at rest) [0..<length rest]"
    by (simp add: upt_conv_Cons map_Suc_upt [symmetric] useless_at_Suc del: upt_Suc)
  show ?case
    unfolding shift by (cases stmt) (simp_all add: Cons scan_used_later useless_at_0)
qed

text \<open>
  Claim C8. An assignment is marked used exactly when, among the statements after it,
  there is a deciding one and the first deciding one proves the use: an output of the
  variable, an assignment to the variable whose right-hand side reads it, or another
  assignment whose right-hand side reads it. It is marked useless when the first
  deciding statement is an assignment to the variable that does not read it or an
  input of the variable, and when no statement decides. Nothing is printed when no
  assignment is useless; otherwise one line is printed, the label \<open>Warning Code 2:\<close>
  followed, for each of the lines of the useless assignments in ascending order, by a
  blank and the number in decimal. For the script \<open>a = f(1); a = f(2); b = f(a); OUTPUT a;\<close>
  with the assignments on lines 10, 11 and 7, the line printed is \<open>Warning Code 2: 7 10\<close>.
\<close>

theorem useless_assignment_analysis:
  "scan_used var later = used_later var later \<and>
   exprUsesVar e var = reads e var \<and>
   useless_scan stmts [] = useless_assignments stmts \<and>
   checkUselessAssignments stmts =
     (if useless_assignments stmts = [] then []
      else [report_line ''Warning Code 2:'' (sort (useless_assignments stmts))]) \<and>
   sorted (sort (useless_assignments stmts)) \<and>
   checkUselessAssignments stmts =
     (if useless_assignments stmts = [] then []
      else [''Warning Code 2:'' @
            concat (map (\<lambda>n. '' '' @ to_string n) (sort (useless_assignments stmts)))]) \<and>
   mset (sort (useless_assignments stmts)) = mset (useless_assignments stmts) \<and>
   read_signed (to_string n) = n \<and>
   checkUselessAssignments
     [AssignStmt ''a'' 10 (CallExpr ''f'' [ConstExpr 1]),
      AssignStmt ''a'' 11 (CallExpr ''f'' [ConstExpr 2]),
      AssignStmt ''b'' 7 (CallExpr ''f'' [VarExpr ''a'' 7]),
      OutputStmt ''a''] = [''Warning Code 2: 7 10'']"
proof -
  have ex: "checkUselessAssignments
     [AssignStmt ''a'' 10 (CallExpr ''f'' [ConstExpr 1]),
      AssignStmt ''a'' 11 (CallExpr ''f'' [ConstExpr 2]),
      AssignStmt ''b'' 7 (CallExpr ''f'' [VarExpr ''a'' 7]),
      OutputStmt ''a''] = [''Warning Code 2: 7 10'']"
    by code_simp
  show ?thesis
    by (intro conjI ex read_signed_to_string)
      (simp_all add: scan_used_later exprUsesVar_reads useless_scan_from useless_assignments_def
        checkUselessAssignments_def report_line_def)
qed

section \<open>Stored bodies have no calls\<close>

lemma parse_power_suffix_call_free:
  "parse_power_suffix expr w s = Inr (e, s') \<Longrightarrow> call_free expr \<Longrightarrow> call_free e"
  by (auto simp: parse_power_suffix_def Let_def bind_Inr split: if_splits)

lemma poly_parsers_call_free:
  "parse_poly_body_expr s = Inr (e, s') \<Longrightarrow> call_free e"
  "parse_poly_body_plus left s = Inr (e, s') \<Longrightarrow> call_free left \<Longrightarrow> call_free e"
  "parse_poly_term s = Inr (e, s') \<Longrightarrow> call_free e"
  "parse_poly_term_mult left s = Inr (e, s') \<Longrightarrow> call_free left \<Longrightarrow> call_free e"
  "parse_poly_factor s = Inr (e, s') \<Longrightarrow> call_free e"
proof (induction s and left s and s and left s and s arbitrary: e s' and e s' and e s' and e s' and e s'
    rule: parse_poly_body_expr_parse_poly_body_plus_parse_poly_term_parse_poly_term_mult_parse_poly_factor.induct)
  case (1 s)
  from 1(4) obtain l1 s1 l2 s2 where
    t: "parse_poly_term s = Inr (l1, s1)" and p: "parse_poly_body_plus l1 s1 = Inr (l2, s2)"
    by (auto simp: parse_poly_body_expr.simps [of s] bind_Inr)
  have a: "call_free l2" using 1(2) [OF t refl p] 1(1) [OF t] by simp
  show ?case
  proof (cases "token_type (peek 1 s2) = MINUS")
    case True
    with 1(4) t p obtain tm s3 r where
      m: "expect MINUS s2 = Inr (tm, s3)" and r: "parse_poly_body_expr s3 = Inr (r, s')"
      and e: "e = SubExpr l2 r"
      by (auto simp: parse_poly_body_expr.simps [of s] bind_Inr)
    from 1(3) [OF t refl p refl True m refl r] a e show ?thesis by simp
  next
    case False
    with 1(4) t p have "e = l2" by (auto simp: parse_poly_body_expr.simps [of s])
    with a show ?thesis by simp
  qed
next
  case (2 left s)
  show ?case
  proof (cases "token_type (peek 1 s) = PLUS")
    case True
    with 2(3) obtain tp s1 r s2 where
      m: "expect PLUS s = Inr (tp, s1)" and t: "parse_poly_term s1 = Inr (r, s2)"
      and l: "parse_poly_body_plus (AddExpr left r) s2 = Inr (e, s')"
      by (auto simp: parse_poly_body_plus.simps [of left s] bind_Inr)
    have "call_free r" using 2(1) [OF True m refl t] .
    with 2(4) show ?thesis using 2(2) [OF True m refl t refl l] by simp
  next
    case False
    with 2(3,4) show ?thesis by (simp add: parse_poly_body_plus.simps [of left s])
  qed
next
  case (3 s)
  consider (num) "token_type (peek 1 s) = NUM"
    | (fac) "token_type (peek 1 s) \<noteq> NUM" "token_type (peek 1 s) = ID \<or> token_type (peek 1 s) = LPAREN"
    | (err) "token_type (peek 1 s) \<noteq> NUM" "\<not> (token_type (peek 1 s) = ID \<or> token_type (peek 1 s) = LPAREN)"
    by blast
  then show ?case
  proof cases
    case num
    with 3(4) obtain tn s1 where
      m: "expect NUM s = Inr (tn, s1)"
      and l: "parse_poly_term_mult (ConstExpr (word_of_int (atoi (lexeme tn)))) s1 = Inr (e, s')"
      by (auto simp: parse_poly_term.simps [of s] Let_def bind_Inr)
    from 3(1) [OF refl num m refl l] show ?thesis by simp
  next
    case fac
    with 3(4) obtain l1 s1 where
      f: "parse_poly_factor s = Inr (l1, s1)" and l: "parse_poly_term_mult l1 s1 = Inr (e, s')"
      by (auto simp: parse_poly_term.simps [of s] Let_def bind_Inr)
    from 3(3) [OF refl fac f refl l] 3(2) [OF refl fac f] show ?thesis by simp
  next
    case err
    with 3(4) show ?thesis by (auto simp: parse_poly_term.simps [of s] Let_def)
  qed
next
  case (4 left s)
  show ?case
  proof (cases "token_type (peek 1 s) = ID \<or> token_type (peek 1 s) = LPAREN")
    case True
    with 4(3) obtain r s1 where
      f: "parse_poly_factor s = Inr (r, s1)" and l: "parse_poly_term_mult (MulExpr left r) s1 = Inr (e, s')"
      by (auto simp: parse_poly_term_mult.simps [of left s] bind_Inr)
    have "call_free r" using 4(1) [OF True f] .
    with 4(4) show ?thesis using 4(2) [OF True f refl l] by simp
  next
    case False
    with 4(3,4) show ?thesis by (auto simp: parse_poly_term_mult.simps [of left s])
  qed
next
  case (5 s)
  consider (num) "token_type (peek 1 s) = NUM"
    | (ident) "token_type (peek 1 s) \<noteq> NUM" "token_type (peek 1 s) = ID"
    | (paren) "token_type (peek 1 s) \<noteq> NUM" "token_type (peek 1 s) \<noteq> ID" "token_type (peek 1 s) = LPAREN"
    | (err) "token_type (peek 1 s) \<noteq> NUM" "token_type (peek 1 s) \<noteq> ID" "token_type (peek 1 s) \<noteq> LPAREN"
    by blast
  then show ?case
  proof cases
    case num
    with 5(2) obtain tn s1 where
      p: "parse_power_suffix (ConstExpr (word_of_int (atoi (lexeme tn)))) False s1 = Inr (e, s')"
      by (auto simp: parse_poly_factor.simps [of s] Let_def bind_Inr)
    from parse_power_suffix_call_free [OF p] show ?thesis by simp
  next
    case ident
    with 5(2) obtain tn s1 where
      p: "parse_power_suffix (VarExpr (lexeme tn) (line_no tn)) False
             (if lexeme tn \<notin> set (current_poly_params s1)
              then s1\<lparr>invalid_monomial_lines := invalid_monomial_lines s1 @ [line_no tn]\<rparr>
              else s1) = Inr (e, s')"
      by (auto simp: parse_poly_factor.simps [of s] Let_def bind_Inr)
    from parse_power_suffix_call_free [OF p] show ?thesis by simp
  next
    case paren
    with 5(2) obtain tl s1 b s2 tr s3 where
      m: "expect LPAREN s = Inr (tl, s1)" and b: "parse_poly_body_expr s1 = Inr (b, s2)"
      and r: "expect RPAREN s2 = Inr (tr, s3)" and p: "parse_power_suffix b True s3 = Inr (e, s')"
      by (auto simp: parse_poly_factor.simps [of s] Let_def bind_Inr)
    from parse_power_suffix_call_free [OF p] 5(1) [OF refl paren m refl b] show ?thesis by simp
  next
    case err
    with 5(2) show ?thesis by (auto simp: parse_poly_factor.simps [of s] Let_def)
  qed
qed

lemma lexer_step_polyExprs: "lexer_step s s' c \<Longrightarrow> polyExprs s' = polyExprs s"
  by (cases s; cases s') (simp add: lexer_step_def)

lemma call_step_polyExprs: "call_step s s' c \<Longrightarrow> polyExprs s' = polyExprs s"
  by (cases s; cases s') (auto simp: call_step_def)

lemma poly_step_polyExprs: "poly_step s s' c \<Longrightarrow> polyExprs s' = polyExprs s"
  by (cases s; cases s') (simp add: poly_step_def)

lemma expect_polyExprs: "expect ty s = Inr (t, s') \<Longrightarrow> polyExprs s' = polyExprs s"
  by (auto simp: expect_def split: prod.splits if_splits)

lemma parse_num_list_polyExprs: "parse_num_list s = Inr s' \<Longrightarrow> polyExprs s' = polyExprs s"
proof (induction s arbitrary: s' rule: parse_num_list.induct)
  case (1 s)
  from 1(2) obtain t s1 where e: "expect NUM s = Inr (t, s1)"
    by (auto simp: parse_num_list.simps [of s] bind_Inr)
  let ?s2 = "set_task_flags (word_of_int (atoi (lexeme t))) s1"
  have b: "polyExprs ?s2 = polyExprs s"
    using expect_polyExprs [OF e] by (simp add: set_task_flags_alt)
  show ?case
  proof (cases "token_type (peek 1 ?s2) = NUM")
    case True
    with 1(2) e have "parse_num_list ?s2 = Inr s'"
      by (simp add: parse_num_list.simps [of s] Let_def)
    from 1(1) [OF e refl refl refl True this] b show ?thesis by simp
  next
    case False
    with 1(2) e have "s' = ?s2" by (simp add: parse_num_list.simps [of s] Let_def)
    with b show ?thesis by simp
  qed
qed

lemma parse_poly_decl_bodies:
  assumes "parse_poly_decl s = Inr s'" and "bodies_call_free (polyExprs s)"
  shows "bodies_call_free (polyExprs s')"
proof -
  from assms(1) obtain h s1 teq s2 body s3 tsemi s4 where
    a: "parse_poly_header s = Inr (h, s1)" and b: "expect EQUAL s1 = Inr (teq, s2)"
    and c: "parse_poly_body_expr (s2\<lparr>current_poly_params := params h, in_poly_decl := True\<rparr>) = Inr (body, s3)"
    and d: "expect SEMICOLON (s3\<lparr>in_poly_decl := False\<rparr>) = Inr (tsemi, s4)"
    and e: "polyExprs s' = polyExprs s4 \<or> polyExprs s' = (polyExprs s4)(name h \<mapsto> body)"
    by (auto simp: parse_poly_decl_def bind_Inr split: if_splits)
  from parse_poly_header_step [OF a] obtain ch where
    "s1 = s\<lparr>lexer := lexer s1, poly_declarations := (poly_declarations s)(name h \<mapsto> params h)\<rparr>"
    by blast
  then have 1: "polyExprs s1 = polyExprs s" by (cases s; cases s1) simp
  have 2: "polyExprs s2 = polyExprs s1" using expect_polyExprs [OF b] .
  from poly_parsers_step(1) [OF c] obtain cb where
    "poly_step (s2\<lparr>current_poly_params := params h, in_poly_decl := True\<rparr>) s3 cb" by blast
  from poly_step_polyExprs [OF this] have 3: "polyExprs s3 = polyExprs s2" by simp
  have 4: "polyExprs s4 = polyExprs s3" using expect_polyExprs [OF d] by simp
  have "call_free body" using poly_parsers_call_free(1) [OF c] .
  with e assms(2) show ?thesis
    unfolding 1 2 3 4 bodies_call_free_def by (auto split: if_splits)
qed

lemma parse_poly_decl_list_bodies:
  "parse_poly_decl_list s = Inr s' \<Longrightarrow> bodies_call_free (polyExprs s) \<Longrightarrow>
   bodies_call_free (polyExprs s')"
proof (induction s arbitrary: s' rule: parse_poly_decl_list.induct)
  case (1 s)
  from 1(2) obtain s1 where d: "parse_poly_decl s = Inr s1"
    by (auto simp: parse_poly_decl_list.simps [of s] bind_Inr)
  have b: "bodies_call_free (polyExprs s1)" using parse_poly_decl_bodies [OF d 1(3)] .
  show ?case
  proof (cases "token_type (peek 1 s1) = ID")
    case True
    with 1(2) d have "parse_poly_decl_list s1 = Inr s'"
      by (simp add: parse_poly_decl_list.simps [of s])
    from 1(1) [OF d True this b] show ?thesis .
  next
    case False
    with 1(2) d have "s' = s1" by (simp add: parse_poly_decl_list.simps [of s])
    with b show ?thesis by simp
  qed
qed

lemma parse_poly_eval_expr_polyExprs:
  assumes "parse_poly_eval_expr s = Inr (e, s')"
  shows "polyExprs s' = polyExprs s"
proof -
  from assms obtain t s0 t1 s1 a s2 args s3 t4 s4 where
    a: "expect ID s = Inr (t, s0)"
    and b: "expect LPAREN (s0\<lparr>used_polynomials := insert (lexeme t) (used_polynomials s0)\<rparr>) = Inr (t1, s1)"
    and c: "parse_argument_expr s1 = Inr (a, s2)"
    and d: "parse_call_args [a] s2 = Inr (args, s3)"
    and e: "expect RPAREN s3 = Inr (t4, s4)"
    and f: "s' = record_call_finding (lexeme t) (length args) (line_no t) s4"
    by (auto simp: parse_poly_eval_expr_def bind_Inr)
  have "polyExprs s0 = polyExprs s" using expect_polyExprs [OF a] .
  moreover have "polyExprs s1 = polyExprs s0" using expect_polyExprs [OF b] by simp
  moreover have "polyExprs s2 = polyExprs s1"
    using call_parsers_step(1) [OF c] call_step_polyExprs by blast
  moreover have "polyExprs s3 = polyExprs s2"
    using call_parsers_step(3) [OF d] call_step_polyExprs by blast
  moreover have "polyExprs s4 = polyExprs s3" using expect_polyExprs [OF e] .
  moreover have "polyExprs s' = polyExprs s4"
    unfolding f using call_step_polyExprs [OF record_call_finding_step] .
  ultimately show ?thesis by simp
qed

lemma parse_statement_exec_polyExprs:
  assumes "parse_statement_exec s = Inr (stmt, s')"
  shows "polyExprs s' = polyExprs s"
proof -
  consider (inp) "parse_input_statement_exec s = Inr (stmt, s')"
    | (out) "parse_output_statement_exec s = Inr (stmt, s')"
    | (asg) "parse_assign_statement_exec s = Inr (stmt, s')"
    using assms by (auto simp: parse_statement_exec_def Let_def split: if_splits)
  then show ?thesis
  proof cases
    case inp
    then obtain t1 s1 t2 s2 t3 where
      "expect INPUT s = Inr (t1, s1)" "expect ID s1 = Inr (t2, s2)" "expect SEMICOLON s2 = Inr (t3, s')"
      by (auto simp: parse_input_statement_exec_def bind_Inr)
    then show ?thesis
      using expect_polyExprs [of INPUT s t1 s1] expect_polyExprs [of ID s1 t2 s2]
        expect_polyExprs [of SEMICOLON s2 t3 s'] by simp
  next
    case out
    then obtain t1 s1 t2 s2 t3 where
      "expect OUTPUT s = Inr (t1, s1)" "expect ID s1 = Inr (t2, s2)" "expect SEMICOLON s2 = Inr (t3, s')"
      by (auto simp: parse_output_statement_exec_def bind_Inr)
    then show ?thesis
      using expect_polyExprs [of OUTPUT s t1 s1] expect_polyExprs [of ID s1 t2 s2]
        expect_polyExprs [of SEMICOLON s2 t3 s'] by simp
  next
    case asg
    then obtain t1 s1 t2 s2 e s3 t3 where
      "expect ID s = Inr (t1, s1)" "expect EQUAL s1 = Inr (t2, s2)"
      "parse_poly_eval_expr s2 = Inr (e, s3)" "expect SEMICOLON s3 = Inr (t3, s')"
      by (auto simp: parse_assign_statement_exec_def bind_Inr)
    then show ?thesis
      using expect_polyExprs [of ID s t1 s1] expect_polyExprs [of EQUAL s1 t2 s2]
        parse_poly_eval_expr_polyExprs [of s2 e s3] expect_polyExprs [of SEMICOLON s3 t3 s'] by simp
  qed
qed

lemma parse_statement_list_exec_polyExprs:
  "parse_statement_list_exec s = Inr s' \<Longrightarrow> polyExprs s' = polyExprs s"
proof (induction s arbitrary: s' rule: parse_statement_list_exec.induct)
  case (1 s)
  from 1(2) obtain stmt s1 where p: "parse_statement_exec s = Inr (stmt, s1)"
    by (auto simp: parse_statement_list_exec.simps [of s] bind_Inr)
  let ?s2 = "s1\<lparr>execStatements := execStatements s1 @ [stmt]\<rparr>"
  have b: "polyExprs ?s2 = polyExprs s" using parse_statement_exec_polyExprs [OF p] by simp
  show ?case
  proof (cases "token_type (peek 1 ?s2) = INPUT \<or> token_type (peek 1 ?s2) = OUTPUT \<or>
      token_type (peek 1 ?s2) = ID")
    case True
    with 1(2) p have "parse_statement_list_exec ?s2 = Inr s'"
      by (simp add: parse_statement_list_exec.simps [of s] Let_def)
    from 1(1) [OF p refl refl refl True this] b show ?thesis by simp
  next
    case False
    with 1(2) p have "s' = ?s2"
      by (simp add: parse_statement_list_exec.simps [of s] Let_def)
    with b show ?thesis by simp
  qed
qed

lemma parse_inputs_loop_polyExprs:
  "parse_inputs_loop s = Inr s' \<Longrightarrow> polyExprs s' = polyExprs s"
proof (induction s arbitrary: s' rule: parse_inputs_loop.induct)
  case (1 s)
  show ?case
  proof (cases "token_type (peek 1 s) = NUM")
    case True
    with 1(2) obtain t s1 where e: "expect NUM s = Inr (t, s1)"
      and l: "parse_inputs_loop (s1\<lparr>execInputs := execInputs s1 @ [word_of_int (atoi (lexeme t))]\<rparr>) = Inr s'"
      by (auto simp: parse_inputs_loop.simps [of s] bind_Inr)
    from 1(1) [OF True e refl l] expect_polyExprs [OF e] show ?thesis by simp
  next
    case False
    with 1(2) show ?thesis by (simp add: parse_inputs_loop.simps [of s])
  qed
qed

lemma ConsumeAllInput_bodies:
  assumes "ConsumeAllInput (initial_parser_state tokens) = Inr s"
  shows "bodies_call_free (polyExprs s)"
proof -
  from assms obtain s1 s2 s3 s4 t5 where
    a: "parse_tasks_section (initial_parser_state tokens) = Inr s1"
    and b: "parse_poly_section s1 = Inr s2"
    and c: "parse_execute_section s2 = Inr s3"
    and d: "parse_inputs_section s3 = Inr s4"
    and e: "expect END_OF_FILE s4 = Inr (t5, s)"
    by (auto simp: ConsumeAllInput_def parse_program_def bind_Inr split: if_splits)
  from a have "polyExprs s1 = Map.empty"
    by (auto simp: parse_tasks_section_def bind_Inr initial_parser_state_def
        dest!: expect_polyExprs parse_num_list_polyExprs)
  then have 1: "bodies_call_free (polyExprs s1)" by (simp add: bodies_call_free_def)
  from b obtain t s1' where "expect POLY s1 = Inr (t, s1')" "parse_poly_decl_list s1' = Inr s2"
    by (auto simp: parse_poly_section_def bind_Inr)
  with 1 have 2: "bodies_call_free (polyExprs s2)"
    using expect_polyExprs [of POLY s1 t s1'] parse_poly_decl_list_bodies [of s1' s2] by simp
  from c obtain t s2' where "expect EXECUTE s2 = Inr (t, s2')" "parse_statement_list_exec s2' = Inr s3"
    by (auto simp: parse_execute_section_def bind_Inr)
  then have 3: "polyExprs s3 = polyExprs s2"
    using expect_polyExprs [of EXECUTE s2 t s2'] parse_statement_list_exec_polyExprs [of s2' s3]
    by simp
  from d obtain t s3' where "expect INPUTS s3 = Inr (t, s3')" "parse_inputs_loop s3' = Inr s4"
    by (auto simp: parse_inputs_section_def bind_Inr split: if_splits)
  then have 4: "polyExprs s4 = polyExprs s3"
    using expect_polyExprs [of INPUTS s3 t s3'] parse_inputs_loop_polyExprs [of s3' s4] by simp
  from expect_polyExprs [OF e] 2 3 4 show ?thesis by simp
qed

section \<open>The bound on nested calls is never reached\<close>

lemma evaluate_call_free_fuel:
  "call_free e \<Longrightarrow> evaluate k decls bodies e env = evaluate k' decls bodies e env"
  by (induction e) (simp_all split: option.splits)

lemma evaluate_fuel:
  assumes "bodies_call_free bodies"
  shows "evaluate (Suc k) decls bodies e env = evaluate 1 decls bodies e env"
proof (induction e)
  case (CallExpr f args)
  then have m: "map (\<lambda>e. evaluate (Suc k) decls bodies e env) args =
      map (\<lambda>e. evaluate 1 decls bodies e env) args"
    by simp
  have b: "evaluate k decls bodies body env' = evaluate 0 decls bodies body env'"
    if "bodies f = Some body" for body env'
    using assms that evaluate_call_free_fuel [of body k decls bodies env' 0]
    by (auto simp: bodies_call_free_def)
  show ?case
    using b by (simp add: m split: option.splits)
qed (simp_all split: option.splits)

lemma execute_fuel:
  assumes "bodies_call_free (polyExprs ps)"
  shows "execute (Suc k) ps stmt st = execute 1 ps stmt st"
proof (cases stmt)
  case (AssignStmt var ln rhs)
  have "evaluate (Suc k) (poly_declarations ps) (polyExprs ps) rhs env =
      evaluate 1 (poly_declarations ps) (polyExprs ps) rhs env" for env
    by (rule evaluate_fuel [OF assms])
  then show ?thesis
    unfolding AssignStmt by (simp add: Let_def split: sum.splits)
qed simp_all

lemma execute_program_fuel:
  "bodies_call_free (polyExprs ps) \<Longrightarrow>
   execute_program (Suc k) ps stmts st = execute_program 1 ps stmts st"
proof (induction stmts arbitrary: st)
  case Nil
  show ?case by simp
next
  case (Cons stmt stmts)
  have e: "execute (Suc k) ps stmt st = execute 1 ps stmt st"
    using Cons.prems by (rule execute_fuel)
  show ?case
  proof (cases "execute 1 ps stmt st")
    case (Inl err)
    with e show ?thesis by (simp del: execute.simps)
  next
    case (Inr st')
    with e Cons.IH [OF Cons.prems, of st'] show ?thesis by (simp del: execute.simps)
  qed
qed

lemma build_env_error: "build_env i n st env \<noteq> Inl CallDepthExceeded"
proof (induction i n st env rule: build_env.induct)
  case (1 i n st env)
  show ?case
  proof (cases "i < n")
    case False
    then show ?thesis by (subst build_env.simps) simp
  next
    case True
    show ?thesis
    proof (cases "find (\<lambda>p. snd p = i) (execSymbolTable st)")
      case None
      with True 1(1) show ?thesis by (subst build_env.simps) simp
    next
      case (Some p)
      show ?thesis
      proof (cases "i < length (mem st)")
        case False
        with True Some show ?thesis by (subst build_env.simps) simp
      next
        case l: True
        from 1(2) [OF True Some l] True Some l show ?thesis
          by (subst build_env.simps) (simp add: fun_upd_def)
      qed
    qed
  qed
qed

lemma execute_returns:
  assumes "bodies_call_free (polyExprs ps)"
  shows "execute (Suc k) ps stmt st \<noteq> Inl CallDepthExceeded"
proof (cases stmt)
  case (AssignStmt var ln rhs)
  have "evaluate (Suc k) (poly_declarations ps) (polyExprs ps) rhs env \<noteq> None" for env
    using evaluate_returns [OF assms, of k "poly_declarations ps" rhs env] by auto
  then have ev: "\<exists>v. evaluate (Suc k) (poly_declarations ps) (polyExprs ps) rhs env = Some v" for env
    by auto
  define st1 where "st1 = ensure_slot var st"
  show ?thesis
  proof (cases "build_env 0 (length (execSymbolTable st1)) st1 Map.empty")
    case (Inl e)
    with build_env_error [of 0 "length (execSymbolTable st1)" st1 Map.empty]
    have "e \<noteq> CallDepthExceeded" by auto
    with Inl show ?thesis unfolding AssignStmt by (simp add: Let_def st1_def)
  next
    case (Inr env)
    from ev [of env] obtain v where
      "evaluate (Suc k) (poly_declarations ps) (polyExprs ps) rhs env = Some v" ..
    with Inr show ?thesis unfolding AssignStmt by (simp add: Let_def st1_def)
  qed
qed (simp_all add: Let_def)

lemma execute_program_returns:
  "bodies_call_free (polyExprs ps) \<Longrightarrow> execute_program (Suc k) ps stmts st \<noteq> Inl CallDepthExceeded"
proof (induction stmts arbitrary: st)
  case Nil
  show ?case by simp
next
  case (Cons stmt stmts)
  show ?case
  proof (cases "execute (Suc k) ps stmt st")
    case (Inl e)
    with execute_returns [OF Cons.prems, of k stmt st] show ?thesis by simp
  next
    case (Inr st')
    with Cons.IH [OF Cons.prems, of st'] show ?thesis by simp
  qed
qed

lemma collect_lines_error: "collect_lines errs acc = Inl e \<Longrightarrow> e = InvalidArgument"
  by (induction errs arbitrary: acc) (auto split: option.splits)

lemma check_semantic_errors_error: "check_semantic_errors s = Inl e \<Longrightarrow> e = InvalidArgument"
  by (auto simp: check_semantic_errors_def bind_Inr split: if_splits sum.splits
      dest: collect_lines_error)

text \<open>
  With one nested call allowed, the bound is never the reason why a run ends, and more
  than one changes nothing.
\<close>

lemma main_fuel:
  "main (Suc k) tokens = main 1 tokens \<and> main (Suc k) tokens \<noteq> Undefined CallDepthExceeded"
proof (cases "ConsumeAllInput (initial_parser_state tokens)")
  case (Inl e)
  then show ?thesis by (simp add: main_def)
next
  case (Inr s)
  have b: "bodies_call_free (polyExprs s)" using ConsumeAllInput_bodies [OF Inr] .
  have r: "run_tasks (Suc k) s = run_tasks 1 s"
    using execute_program_fuel [OF b, of k] by (simp add: run_tasks_def)
  have n: "run_tasks (Suc k) s \<noteq> Undefined CallDepthExceeded"
    using execute_program_returns [OF b, of k]
    by (auto simp: run_tasks_def split: sum.splits if_splits)
  show ?thesis
  proof (cases "check_semantic_errors s")
    case (Inl e)
    with check_semantic_errors_error [OF Inl] Inr show ?thesis by (simp add: main_def)
  next
    case (Inr out)
    with \<open>ConsumeAllInput (initial_parser_state tokens) = Inr s\<close> r n show ?thesis
      by (cases out) (simp_all add: main_def)
  qed
qed

end
